theory Spec2Isabelle
  imports Main
begin

section \<open>Data model (types.ts)\<close>

text \<open>
  \<^verbatim>\<open>ResourceKey = string | number | symbol\<close>. Keys are only ever compared (by the
  \<^verbatim>\<open>Map\<close> of the store) and tested for truthiness (by \<^verbatim>\<open>useKeyedScope\<close>). Number keys
  are taken to be integers; a symbol is identified by a number.
\<close>

datatype ResourceKey = KeyString string | KeyNumber int | KeySymbol nat

text \<open>
  \<^verbatim>\<open>Option<T> = null | { some: T }\<close> is the HOL \<open>option\<close> type. The record is
  \<^verbatim>\<open>interface ResourceState<T>\<close>; \<open>'e\<close> stands for the \<^verbatim>\<open>unknown\<close> type of errors.
  \<^verbatim>\<open>owners\<close> is a JavaScript number changed by \<^verbatim>\<open>++\<close> and \<^verbatim>\<open>--\<close> only: an integer, which
  may become negative.
\<close>

record ('a, 'e) ResourceState =
  data :: "'a option"
  error :: "'e option"
  pending :: bool
  fresh :: bool
  owners :: int

section \<open>The amnesia store (amnesia-store.ts)\<close>

text \<open>
  \<^verbatim>\<open>type AmnesiaStoreStorage<T> = Map<ResourceKey, ResourceState<T> | null>\<close>: a key is
  either not in the map (\<^verbatim>\<open>storage.get\<close> gives \<^verbatim>\<open>undefined\<close>), or mapped to \<^verbatim>\<open>null\<close>,
  or mapped to a state. \<open>'s\<close> is what the map holds for a state: an object reference
  once the states live in a heap (see below).
\<close>

type_synonym 's AmnesiaStoreStorage = "ResourceKey \<rightharpoonup> 's option"

definition createAmnesiaStore :: "'s AmnesiaStoreStorage" where
  "createAmnesiaStore = Map.empty"

text \<open>\<^verbatim>\<open>get(key) { return storage.get(key) ?? null }\<close>\<close>

definition store_get :: "'s AmnesiaStoreStorage \<Rightarrow> ResourceKey \<Rightarrow> 's option" where
  "store_get storage key = (case storage key of None \<Rightarrow> None | Some state \<Rightarrow> state)"

text \<open>\<^verbatim>\<open>set(key, state) { storage.set(key, state) }\<close>\<close>

definition store_set ::
  "'s AmnesiaStoreStorage \<Rightarrow> ResourceKey \<Rightarrow> 's option \<Rightarrow> 's AmnesiaStoreStorage" where
  "store_set storage key state = storage(key \<mapsto> state)"

text \<open>A sequence of \<^verbatim>\<open>set\<close> calls on a store, in order.\<close>

fun store_sets ::
  "'s AmnesiaStoreStorage \<Rightarrow> (ResourceKey \<times> 's option) list \<Rightarrow> 's AmnesiaStoreStorage" where
  "store_sets storage [] = storage"
| "store_sets storage ((key, state) # calls) = store_sets (store_set storage key state) calls"

section \<open>The world: heap of state objects, store, fetch tasks, consumers\<close>

text \<open>
  The states are JavaScript objects: the store, the \<^verbatim>\<open>state\<close> computed of every consumer
  and the \<^verbatim>\<open>state\<close> parameter of every running \<^verbatim>\<open>executeFetch\<close> hold references to them,
  and a write through one reference is seen through the others. So the states live in a
  heap, indexed by references; an object literal (\<^verbatim>\<open>reset\<close>) takes the next unused
  reference.
\<close>

type_synonym ref = nat
type_synonym tid = nat
type_synonym cid = nat

text \<open>
  \<^verbatim>\<open>let result: typeof FETCH_TASK_ABORTED | T\<close>, and the three states of the promise
  \<^verbatim>\<open>new Promise((resolve, reject) => ...)\<close> that \<^verbatim>\<open>executeFetch\<close> awaits.
\<close>

datatype 'a fetch_result = FETCH_TASK_ABORTED | Fetched 'a

datatype ('a, 'e) promise = Unsettled | Resolved "'a fetch_result" | Rejected 'e

text \<open>
  The functions in the \<^verbatim>\<open>hooks\<close> array of \<^verbatim>\<open>initFetchAbort\<close>: the one \<^verbatim>\<open>executeFetch\<close>
  registers (\<^verbatim>\<open>() => resolve(FETCH_TASK_ABORTED)\<close>), and those the user's fetch function
  registers through \<^verbatim>\<open>onAbort\<close>. Of a user's hook the model keeps whether it throws.
\<close>

datatype hook = ResolveAborted | UserHook bool

text \<open>
  Where a call of the async function \<^verbatim>\<open>executeFetch\<close> stands: suspended at its \<^verbatim>\<open>await\<close>,
  returned (the body after the \<^verbatim>\<open>await\<close> has run), or finalized (the \<^verbatim>\<open>.finally\<close>
  callback of \<^verbatim>\<open>useSwr\<close> has run too).
\<close>

datatype phase = Awaiting | Returned | Finalized

text \<open>
  One call of \<^verbatim>\<open>executeFetch\<close> with its \<^verbatim>\<open>initFetchAbort\<close>: \<open>task_state\<close> is the \<^verbatim>\<open>state\<close>
  parameter (a reference), \<open>task_owner\<close> the consumer whose engine made the call, and
  \<open>invoked_at\<close> the content of the state object at the moment \<^verbatim>\<open>fetch.fn(onAbort)\<close> is
  called, which is what the asynchronous operation finds when it starts.
\<close>

record ('a, 'e) task =
  task_state :: ref
  task_owner :: cid
  task_promise :: "('a, 'e) promise"
  task_hooks :: "hook list"
  task_phase :: phase
  invoked_at :: "('a, 'e) ResourceState"

text \<open>
  The local variables of one \<^verbatim>\<open>useSwr\<close> call. \<open>alive\<close>: the call has been made and its
  component is not unmounted. \<open>keyReactive\<close> is the computed of that name. \<open>keyed_scope\<close>
  is \<^verbatim>\<open>scope\<close> of \<^verbatim>\<open>useKeyedScope\<close> with the \<^verbatim>\<open>keyStatic\<close> it was set up for, \<open>committed\<close>
  the ref of \<^verbatim>\<open>useResourceOwnership\<close>, \<open>engine_scope\<close> says whether \<^verbatim>\<open>scope\<close> of
  \<^verbatim>\<open>useConditionalScope\<close> is set, \<open>currentFetchTask\<close> is the ref of that scope, and
  \<open>resource\<close> is \<^verbatim>\<open>resource.value\<close> (the key of the handle, or \<^verbatim>\<open>null\<close>).

  The five \<open>old\<close> fields are the values the five watchers (\<^verbatim>\<open>watch\<close> of Vue) saw when they
  last ran: a watcher calls its callback when the value of its source has changed.
\<close>

record consumer =
  alive :: bool
  keyReactive :: "ResourceKey option"
  key_old :: "ResourceKey option"
  keyed_scope :: "ResourceKey option"
  committed :: bool
  state_old :: "ref option"
  no_state_old :: bool
  confirmed_old :: bool
  engine_scope :: bool
  currentFetchTask :: "tid option"
  trigger_old :: "bool \<times> ref option"
  resource :: "ResourceKey option"

text \<open>
  \<open>microtasks\<close> holds the keys of the \<^verbatim>\<open>Promise.resolve().then(reset)\<close> callbacks that are
  queued and have not run yet.
\<close>

record ('a, 'e) world =
  heap :: "ref \<Rightarrow> ('a, 'e) ResourceState"
  next_ref :: ref
  storage :: "ref AmnesiaStoreStorage"
  tasks :: "tid \<rightharpoonup> ('a, 'e) task"
  next_tid :: tid
  consumers :: "cid \<Rightarrow> consumer"
  microtasks :: "ResourceKey list"

definition modify ::
  "ref \<Rightarrow> (('a, 'e) ResourceState \<Rightarrow> ('a, 'e) ResourceState) \<Rightarrow> ('a, 'e) world \<Rightarrow> ('a, 'e) world" where
  "modify r f w = w\<lparr>heap := (heap w)(r := f (heap w r))\<rparr>"

definition local_vars :: "cid \<Rightarrow> (consumer \<Rightarrow> consumer) \<Rightarrow> ('a, 'e) world \<Rightarrow> ('a, 'e) world" where
  "local_vars c f w = w\<lparr>consumers := (consumers w)(c := f (consumers w c))\<rparr>"

definition task_update ::
  "tid \<Rightarrow> (('a, 'e) task \<Rightarrow> ('a, 'e) task) \<Rightarrow> ('a, 'e) world \<Rightarrow> ('a, 'e) world" where
  "task_update t f w = w\<lparr>tasks := (tasks w)(t := map_option f (tasks w t))\<rparr>"

section \<open>useSwr: the keyed scope's state, reset and markStale\<close>

text \<open>\<^verbatim>\<open>const state = computed(() => store.get(keyStatic))\<close>\<close>

definition state_value :: "('a, 'e) world \<Rightarrow> ResourceKey \<Rightarrow> ref option" where
  "state_value w keyStatic = store_get (storage w) keyStatic"

text \<open>The object literal of \<^verbatim>\<open>reset\<close>.\<close>

definition initial_state :: "('a, 'e) ResourceState" where
  "initial_state = \<lparr>data = None, error = None, pending = False, fresh = False, owners = 0\<rparr>"

text \<open>
  \<^verbatim>\<open>function reset() { store.set(keyStatic, { data: null, error: null, fresh: false,
  pending: false, owners: 0 }) }\<close>: a new object, stored under the key.
\<close>

definition reset :: "ResourceKey \<Rightarrow> ('a, 'e) world \<Rightarrow> ('a, 'e) world" where
  "reset keyStatic w =
     (let r = next_ref w
      in w\<lparr>heap := (heap w)(r := initial_state),
           next_ref := Suc r,
           storage := store_set (storage w) keyStatic (Some r)\<rparr>)"

text \<open>
  \<^verbatim>\<open>function markStale() { if (state.value) { state.value.fresh = false } }\<close>. It is called
  through \<^verbatim>\<open>resource.value\<close>, which holds the handle only while the scope of the key (and of
  the engine) is not stopped: then the computed \<^verbatim>\<open>state\<close> is live and \<^verbatim>\<open>state.value\<close> is what
  the store holds for the key. (Through a handle that the application has kept beyond
  that, \<^verbatim>\<open>state.value\<close> is the object the stopped computed has cached; such a call writes the
  \<^verbatim>\<open>fresh\<close> field of that object and is an \<open>Overwrite\<close> event below.)
\<close>

definition markStale :: "ResourceKey \<Rightarrow> ('a, 'e) world \<Rightarrow> ('a, 'e) world" where
  "markStale keyStatic w =
     (case state_value w keyStatic of
        None \<Rightarrow> w
      | Some r \<Rightarrow> modify r (\<lambda>s. s\<lparr>fresh := False\<rparr>) w)"

text \<open>
  \<^verbatim>\<open>whenever(() => !state.value, () => Promise.resolve().then(reset), { immediate: true })\<close>:
  the callback, called with the value of the source, queues a call of \<^verbatim>\<open>reset\<close> when that
  value is true; the queued call runs later, whatever the store holds by then.
\<close>

definition whenever_no_state :: "ResourceKey \<Rightarrow> bool \<Rightarrow> ('a, 'e) world \<Rightarrow> ('a, 'e) world" where
  "whenever_no_state keyStatic v w = (if v then w\<lparr>microtasks := microtasks w @ [keyStatic]\<rparr> else w)"

definition run_microtask :: "('a, 'e) world \<Rightarrow> ('a, 'e) world" where
  "run_microtask w =
     (case microtasks w of
        [] \<Rightarrow> w
      | keyStatic # rest \<Rightarrow> reset keyStatic (w\<lparr>microtasks := rest\<rparr>))"

section \<open>useResourceOwnership\<close>

text \<open>
  \<^verbatim>\<open>const confirmed = computed(() => !!state.value && state.value.owners === 1 &&
  committed.value)\<close>
\<close>

definition confirmed :: "cid \<Rightarrow> ResourceKey \<Rightarrow> ('a, 'e) world \<Rightarrow> bool" where
  "confirmed c keyStatic w =
     (case state_value w keyStatic of
        None \<Rightarrow> False
      | Some r \<Rightarrow> owners (heap w r) = 1 \<and> committed (consumers w c))"

text \<open>
  The callback of \<^verbatim>\<open>watch(state, (state) => ...)\<close>, called with the new value of the
  source: \<^verbatim>\<open>if (state) { state.owners++; committed.value = true } else { committed.value =
  false }\<close>.
\<close>

definition ownership_watch :: "cid \<Rightarrow> ref option \<Rightarrow> ('a, 'e) world \<Rightarrow> ('a, 'e) world" where
  "ownership_watch c state w =
     (case state of
        Some r \<Rightarrow> local_vars c (\<lambda>l. l\<lparr>committed := True\<rparr>) (modify r (\<lambda>s. s\<lparr>owners := owners s + 1\<rparr>) w)
      | None \<Rightarrow> local_vars c (\<lambda>l. l\<lparr>committed := False\<rparr>) w)"

text \<open>
  \<^verbatim>\<open>onScopeDispose(() => { if (committed.value && state.value) { state.value.owners-- } })\<close>:
  \<^verbatim>\<open>state.value\<close> is what the store holds for the key when the scope is disposed.
\<close>

definition ownership_dispose :: "cid \<Rightarrow> ResourceKey \<Rightarrow> ('a, 'e) world \<Rightarrow> ('a, 'e) world" where
  "ownership_dispose c keyStatic w =
     (if committed (consumers w c)
      then (case state_value w keyStatic of
              None \<Rightarrow> w
            | Some r \<Rightarrow> modify r (\<lambda>s. s\<lparr>owners := owners s - 1\<rparr>) w)
      else w)"

section \<open>initFetchAbort and the awaited promise\<close>

text \<open>\<^verbatim>\<open>onAbort: (fn) => hooks.push(fn)\<close>\<close>

definition onAbort :: "tid \<Rightarrow> hook \<Rightarrow> ('a, 'e) world \<Rightarrow> ('a, 'e) world" where
  "onAbort t fn w = task_update t (\<lambda>tk. tk\<lparr>task_hooks := task_hooks tk @ [fn]\<rparr>) w"

text \<open>
  \<^verbatim>\<open>resolve\<close> and \<^verbatim>\<open>reject\<close> of the promise: the first call settles it, a later call does
  nothing.
\<close>

definition promise_resolve :: "tid \<Rightarrow> 'a fetch_result \<Rightarrow> ('a, 'e) world \<Rightarrow> ('a, 'e) world" where
  "promise_resolve t x w =
     task_update t (\<lambda>tk. if task_promise tk = Unsettled then tk\<lparr>task_promise := Resolved x\<rparr> else tk) w"

definition promise_reject :: "tid \<Rightarrow> 'e \<Rightarrow> ('a, 'e) world \<Rightarrow> ('a, 'e) world" where
  "promise_reject t err w =
     task_update t (\<lambda>tk. if task_promise tk = Unsettled then tk\<lparr>task_promise := Rejected err\<rparr> else tk) w"

text \<open>
  \<^verbatim>\<open>fetch.fn(onAbort).then(resolve).catch(reject)\<close>: what the settling of the user's
  operation does to the promise.
\<close>

definition operation_resolves :: "tid \<Rightarrow> 'a \<Rightarrow> ('a, 'e) world \<Rightarrow> ('a, 'e) world" where
  "operation_resolves t v w = promise_resolve t (Fetched v) w"

definition operation_rejects :: "tid \<Rightarrow> 'e \<Rightarrow> ('a, 'e) world \<Rightarrow> ('a, 'e) world" where
  "operation_rejects t err w = promise_reject t err w"

text \<open>A call \<^verbatim>\<open>fn()\<close> of a hook: \<open>Inl\<close> when it throws.\<close>

fun call_hook :: "tid \<Rightarrow> hook \<Rightarrow> ('a, 'e) world \<Rightarrow> unit + ('a, 'e) world" where
  "call_hook t ResolveAborted w = Inr (promise_resolve t FETCH_TASK_ABORTED w)"
| "call_hook t (UserHook throws) w = (if throws then Inl () else Inr w)"

text \<open>
  \<^verbatim>\<open>abort: () => { for (const fn of hooks) { try { fn() } catch (err) { console.error(...) } } }\<close>
\<close>

fun abort_hooks :: "tid \<Rightarrow> hook list \<Rightarrow> ('a, 'e) world \<Rightarrow> ('a, 'e) world" where
  "abort_hooks t [] w = w"
| "abort_hooks t (fn # hooks) w =
     (case call_hook t fn w of
        Inl err \<Rightarrow> abort_hooks t hooks w
      | Inr w' \<Rightarrow> abort_hooks t hooks w')"

definition abort :: "tid \<Rightarrow> ('a, 'e) world \<Rightarrow> ('a, 'e) world" where
  "abort t w = (case tasks w t of None \<Rightarrow> w | Some tk \<Rightarrow> abort_hooks t (task_hooks tk) w)"

section \<open>executeFetch\<close>

text \<open>
  The synchronous part of \<^verbatim>\<open>executeFetch({ fetch, state, onAbort })\<close>, up to the \<^verbatim>\<open>await\<close>:
  \<^verbatim>\<open>state.pending = true\<close>; then the executor of the new promise registers the abort hook
  and calls \<^verbatim>\<open>fetch.fn(onAbort)\<close>. The new task takes the identifier \<open>next_tid w\<close>.
\<close>

definition executeFetch_start :: "cid \<Rightarrow> ref \<Rightarrow> ('a, 'e) world \<Rightarrow> ('a, 'e) world" where
  "executeFetch_start c state w =
     (let w1 = modify state (\<lambda>s. s\<lparr>pending := True\<rparr>) w;
          t = next_tid w1;
          w2 = w1\<lparr>tasks := (tasks w1)(t \<mapsto>
                    \<lparr>task_state = state, task_owner = c, task_promise = Unsettled,
                     task_hooks = [], task_phase = Awaiting, invoked_at = heap w1 state\<rparr>),
                  next_tid := Suc t\<rparr>
      in onAbort t ResolveAborted w2)"

text \<open>
  The rest of \<^verbatim>\<open>executeFetch\<close>, which runs once the awaited promise is settled:
  \<^verbatim>\<open>if (result === FETCH_TASK_ABORTED) return\<close>, else the four assignments of the \<^verbatim>\<open>try\<close>
  block; the three assignments of the \<^verbatim>\<open>catch\<close> block when the promise is rejected.
\<close>

definition executeFetch_resume :: "tid \<Rightarrow> ('a, 'e) world \<Rightarrow> ('a, 'e) world" where
  "executeFetch_resume t w =
     (case tasks w t of
        None \<Rightarrow> w
      | Some tk \<Rightarrow>
          if task_phase tk \<noteq> Awaiting then w
          else (case task_promise tk of
                  Unsettled \<Rightarrow> w
                | Resolved FETCH_TASK_ABORTED \<Rightarrow> task_update t (\<lambda>tk. tk\<lparr>task_phase := Returned\<rparr>) w
                | Resolved (Fetched result) \<Rightarrow>
                    task_update t (\<lambda>tk. tk\<lparr>task_phase := Returned\<rparr>)
                      (modify (task_state tk)
                         (\<lambda>s. s\<lparr>data := Some result, fresh := True, error := None, pending := False\<rparr>) w)
                | Rejected err \<Rightarrow>
                    task_update t (\<lambda>tk. tk\<lparr>task_phase := Returned\<rparr>)
                      (modify (task_state tk)
                         (\<lambda>s. s\<lparr>error := Some err, fresh := True, pending := False\<rparr>) w)))"

section \<open>The fetch engine of useSwr (the scope of useConditionalScope)\<close>

text \<open>
  \<^verbatim>\<open>function abortFetchTaskIfThereIsSome() { currentFetchTask.value?.abort();
  currentFetchTask.value = null }\<close>
\<close>

definition abortFetchTaskIfThereIsSome :: "cid \<Rightarrow> ('a, 'e) world \<Rightarrow> ('a, 'e) world" where
  "abortFetchTaskIfThereIsSome c w =
     local_vars c (\<lambda>l. l\<lparr>currentFetchTask := None\<rparr>)
       (case currentFetchTask (consumers w c) of None \<Rightarrow> w | Some t \<Rightarrow> abort t w)"

text \<open>
  \<^verbatim>\<open>const triggerExecuteFetch = computed(() => !!state.value && !state.value.pending &&
  !state.value.fresh)\<close>
\<close>

definition triggerExecuteFetch :: "ResourceKey \<Rightarrow> ('a, 'e) world \<Rightarrow> bool" where
  "triggerExecuteFetch keyStatic w =
     (case state_value w keyStatic of
        None \<Rightarrow> False
      | Some r \<Rightarrow> \<not> pending (heap w r) \<and> \<not> fresh (heap w r))"

text \<open>
  The callback of \<^verbatim>\<open>watch([triggerExecuteFetch, state], ([trigger]) => ...)\<close>, with the
  evaluation of its sources: \<^verbatim>\<open>if (trigger) { abortFetchTaskIfThereIsSome(); ...
  executeFetch({ fetch: fetch.value!, state: state.value!, onAbort }) ...;
  currentFetchTask.value = { promise, abort } }\<close>.
\<close>

definition fetch_watch :: "cid \<Rightarrow> ResourceKey \<Rightarrow> ('a, 'e) world \<Rightarrow> ('a, 'e) world" where
  "fetch_watch c keyStatic w =
     (if triggerExecuteFetch keyStatic w
      then (let w1 = abortFetchTaskIfThereIsSome c w
            in case state_value w1 keyStatic of
                 None \<Rightarrow> w1
               | Some r \<Rightarrow>
                   local_vars c (\<lambda>l. l\<lparr>currentFetchTask := Some (next_tid w1)\<rparr>)
                     (executeFetch_start c r w1))
      else w)"

text \<open>
  \<^verbatim>\<open>.finally(() => { if (promise === currentFetchTask.value?.promise) {
  currentFetchTask.value = null } })\<close>, which runs after \<^verbatim>\<open>executeFetch\<close> has returned.
\<close>

definition fetch_finally :: "tid \<Rightarrow> ('a, 'e) world \<Rightarrow> ('a, 'e) world" where
  "fetch_finally t w =
     (case tasks w t of
        None \<Rightarrow> w
      | Some tk \<Rightarrow>
          if task_phase tk \<noteq> Returned then w
          else task_update t (\<lambda>tk. tk\<lparr>task_phase := Finalized\<rparr>)
                 (if currentFetchTask (consumers w (task_owner tk)) = Some t
                  then local_vars (task_owner tk) (\<lambda>l. l\<lparr>currentFetchTask := None\<rparr>) w
                  else w))"

section \<open>The watchers\<close>

text \<open>
  Every \<^verbatim>\<open>watch\<close> of the source is \<^verbatim>\<open>immediate\<close>: when it is created, its source is
  evaluated and its callback is called with the value (the functions \<open>_run\<close> below, which
  also remember the value). Later the scheduler of Vue runs the watcher's job after a
  dependency has changed: the job does nothing when the watcher's scope is stopped or when
  the value of the source is the one remembered, and else does the same as at creation
  (the functions \<open>_job\<close>).
\<close>

definition ownership_run :: "cid \<Rightarrow> ResourceKey \<Rightarrow> ('a, 'e) world \<Rightarrow> ('a, 'e) world" where
  "ownership_run c keyStatic w =
     (let v = state_value w keyStatic
      in ownership_watch c v (local_vars c (\<lambda>l. l\<lparr>state_old := v\<rparr>) w))"

definition whenever_run :: "cid \<Rightarrow> ResourceKey \<Rightarrow> ('a, 'e) world \<Rightarrow> ('a, 'e) world" where
  "whenever_run c keyStatic w =
     (let v = (state_value w keyStatic = None)
      in whenever_no_state keyStatic v (local_vars c (\<lambda>l. l\<lparr>no_state_old := v\<rparr>) w))"

definition fetch_run :: "cid \<Rightarrow> ResourceKey \<Rightarrow> ('a, 'e) world \<Rightarrow> ('a, 'e) world" where
  "fetch_run c keyStatic w =
     (let v = (triggerExecuteFetch keyStatic w, state_value w keyStatic)
      in fetch_watch c keyStatic (local_vars c (\<lambda>l. l\<lparr>trigger_old := v\<rparr>) w))"

text \<open>
  The setup function given to \<^verbatim>\<open>useConditionalScope\<close>: a new \<^verbatim>\<open>currentFetchTask\<close> ref, the
  watcher, \<^verbatim>\<open>resource.value = ...\<close>; and its \<^verbatim>\<open>onScopeDispose\<close> callback.
\<close>

definition engine_setup :: "cid \<Rightarrow> ResourceKey \<Rightarrow> ('a, 'e) world \<Rightarrow> ('a, 'e) world" where
  "engine_setup c keyStatic w =
     local_vars c (\<lambda>l. l\<lparr>resource := Some keyStatic\<rparr>)
       (fetch_run c keyStatic (local_vars c (\<lambda>l. l\<lparr>currentFetchTask := None\<rparr>) w))"

definition engine_dispose :: "cid \<Rightarrow> ('a, 'e) world \<Rightarrow> ('a, 'e) world" where
  "engine_dispose c w = local_vars c (\<lambda>l. l\<lparr>resource := None\<rparr>) (abortFetchTaskIfThereIsSome c w)"

section \<open>useConditionalScope and useKeyedScope\<close>

text \<open>
  The callback of \<^verbatim>\<open>watch(condition, (value) => ...)\<close> in \<^verbatim>\<open>useConditionalScope\<close>:
  \<^verbatim>\<open>if (value) { main.run(() => { scope = effectScope(); scope.run(setup) }) } else {
  scope?.stop(); scope = null }\<close>.
\<close>

definition conditional_watch :: "cid \<Rightarrow> ResourceKey \<Rightarrow> bool \<Rightarrow> ('a, 'e) world \<Rightarrow> ('a, 'e) world" where
  "conditional_watch c keyStatic v w =
     (if v then engine_setup c keyStatic (local_vars c (\<lambda>l. l\<lparr>engine_scope := True\<rparr>) w)
      else local_vars c (\<lambda>l. l\<lparr>engine_scope := False\<rparr>)
             (if engine_scope (consumers w c) then engine_dispose c w else w))"

definition conditional_run :: "cid \<Rightarrow> ResourceKey \<Rightarrow> ('a, 'e) world \<Rightarrow> ('a, 'e) world" where
  "conditional_run c keyStatic w =
     (let v = confirmed c keyStatic w
      in conditional_watch c keyStatic v (local_vars c (\<lambda>l. l\<lparr>confirmed_old := v\<rparr>) w))"

text \<open>\<^verbatim>\<open>if (key)\<close>: the empty string and the number 0 are falsy.\<close>

fun key_truthy :: "ResourceKey \<Rightarrow> bool" where
  "key_truthy (KeyString s) = (s \<noteq> [])"
| "key_truthy (KeyNumber n) = (n \<noteq> 0)"
| "key_truthy (KeySymbol y) = True"

text \<open>
  The function given to \<^verbatim>\<open>useKeyedScope\<close> by \<^verbatim>\<open>useSwr\<close>, run in a new scope for
  \<^verbatim>\<open>keyStatic\<close>: \<^verbatim>\<open>useResourceOwnership(state)\<close> (a new \<^verbatim>\<open>committed\<close> ref and the watcher),
  the \<^verbatim>\<open>whenever\<close>, and \<^verbatim>\<open>useConditionalScope\<close>, in this order.
\<close>

definition keyed_setup :: "cid \<Rightarrow> ResourceKey \<Rightarrow> ('a, 'e) world \<Rightarrow> ('a, 'e) world" where
  "keyed_setup c keyStatic w =
     (let w1 = local_vars c (\<lambda>l. l\<lparr>keyed_scope := Some keyStatic, committed := False,
                                   engine_scope := False\<rparr>) w;
          w2 = ownership_run c keyStatic w1;
          w3 = whenever_run c keyStatic w2
      in conditional_run c keyStatic w3)"

text \<open>
  \<^verbatim>\<open>scope.stop()\<close> of the keyed scope: its cleanups run (the \<^verbatim>\<open>onScopeDispose\<close> of
  \<^verbatim>\<open>useResourceOwnership\<close>), then its child scope, the engine's, is stopped.
\<close>

definition keyed_stop :: "cid \<Rightarrow> ('a, 'e) world \<Rightarrow> ('a, 'e) world" where
  "keyed_stop c w =
     (case keyed_scope (consumers w c) of
        None \<Rightarrow> w
      | Some keyStatic \<Rightarrow>
          (let w1 = ownership_dispose c keyStatic w;
               w2 = (if engine_scope (consumers w1 c) then engine_dispose c w1 else w1)
           in local_vars c (\<lambda>l. l\<lparr>keyed_scope := None, engine_scope := False\<rparr>) w2))"

text \<open>
  The callback of \<^verbatim>\<open>watch(key, (key) => ...)\<close> in \<^verbatim>\<open>useKeyedScope\<close>:
  \<^verbatim>\<open>if (scope) { scope.stop(); scope = null }; if (key) { main.run(() => { scope =
  effectScope(); scope.run(() => setup(key)) }) }\<close>.
\<close>

definition key_watch :: "cid \<Rightarrow> ResourceKey option \<Rightarrow> ('a, 'e) world \<Rightarrow> ('a, 'e) world" where
  "key_watch c key w =
     (let w1 = keyed_stop c w
      in case key of
           None \<Rightarrow> w1
         | Some k \<Rightarrow> if key_truthy k then keyed_setup c k w1 else w1)"

definition key_run :: "cid \<Rightarrow> ('a, 'e) world \<Rightarrow> ('a, 'e) world" where
  "key_run c w =
     (let v = keyReactive (consumers w c)
      in key_watch c v (local_vars c (\<lambda>l. l\<lparr>key_old := v\<rparr>) w))"

text \<open>The jobs of the five watchers of a consumer.\<close>

definition key_job :: "cid \<Rightarrow> ('a, 'e) world \<Rightarrow> ('a, 'e) world" where
  "key_job c w =
     (let l = consumers w c
      in if alive l \<and> keyReactive l \<noteq> key_old l then key_run c w else w)"

definition ownership_job :: "cid \<Rightarrow> ('a, 'e) world \<Rightarrow> ('a, 'e) world" where
  "ownership_job c w =
     (let l = consumers w c
      in case keyed_scope l of
           None \<Rightarrow> w
         | Some keyStatic \<Rightarrow>
             if state_value w keyStatic \<noteq> state_old l then ownership_run c keyStatic w else w)"

definition whenever_job :: "cid \<Rightarrow> ('a, 'e) world \<Rightarrow> ('a, 'e) world" where
  "whenever_job c w =
     (let l = consumers w c
      in case keyed_scope l of
           None \<Rightarrow> w
         | Some keyStatic \<Rightarrow>
             if (state_value w keyStatic = None) \<noteq> no_state_old l then whenever_run c keyStatic w
             else w)"

definition conditional_job :: "cid \<Rightarrow> ('a, 'e) world \<Rightarrow> ('a, 'e) world" where
  "conditional_job c w =
     (let l = consumers w c
      in case keyed_scope l of
           None \<Rightarrow> w
         | Some keyStatic \<Rightarrow>
             if confirmed c keyStatic w \<noteq> confirmed_old l then conditional_run c keyStatic w
             else w)"

definition fetch_job :: "cid \<Rightarrow> ('a, 'e) world \<Rightarrow> ('a, 'e) world" where
  "fetch_job c w =
     (let l = consumers w c
      in case keyed_scope l of
           None \<Rightarrow> w
         | Some keyStatic \<Rightarrow>
             if engine_scope l
                \<and> (triggerExecuteFetch keyStatic w, state_value w keyStatic) \<noteq> trigger_old l
             then fetch_run c keyStatic w
             else w)"

section \<open>Executions\<close>

text \<open>
  What can happen, one event at a time. First what the application does: a component
  calls \<^verbatim>\<open>useSwr\<close> with a store shared by all consumers, changes the key of its fetch
  configuration, or is unmounted; somebody calls \<^verbatim>\<open>markStale()\<close> of the handle a consumer
  exposes just then (\<^verbatim>\<open>resource.value?.markStale()\<close>) or \<^verbatim>\<open>reset()\<close> of a handle for a
  key, or works on the store directly (\<^verbatim>\<open>store.set\<close> with a new
  object, with an object that exists, or with \<^verbatim>\<open>null\<close>; \<^verbatim>\<open>store.storage.clear()\<close>) or
  overwrites the fields of a state object; the operation of a fetch task resolves,
  rejects, or registers one more abort hook. Then what the schedulers of Vue and of
  JavaScript do: they run the job of a watcher, a queued \<^verbatim>\<open>reset\<close>, the rest of an
  \<^verbatim>\<open>executeFetch\<close> whose promise is settled, or a \<^verbatim>\<open>.finally\<close> callback.
\<close>

datatype ('a, 'e) event =
    UseSwr cid "ResourceKey option"
  | SetKey cid "ResourceKey option"
  | Unmount cid
  | CallMarkStale cid
  | CallReset ResourceKey
  | StoreSetNew ResourceKey "('a, 'e) ResourceState"
  | StoreSetRef ResourceKey ref
  | StoreSetNull ResourceKey
  | StoreClear
  | Overwrite ref "('a, 'e) ResourceState"
  | OperationResolves tid 'a
  | OperationRejects tid 'e
  | OperationOnAbort tid bool
  | KeyJob cid
  | OwnershipJob cid
  | WheneverJob cid
  | ConditionalJob cid
  | FetchJob cid
  | Microtask
  | Resume tid
  | Finally tid

fun step :: "('a, 'e) event \<Rightarrow> ('a, 'e) world \<Rightarrow> ('a, 'e) world" where
  "step (UseSwr c key) w =
     (if alive (consumers w c) then w
      else key_run c (local_vars c (\<lambda>l. l\<lparr>alive := True, keyReactive := key, keyed_scope := None,
                                            engine_scope := False\<rparr>) w))"
| "step (SetKey c key) w = local_vars c (\<lambda>l. l\<lparr>keyReactive := key\<rparr>) w"
| "step (Unmount c) w =
     (if alive (consumers w c) then local_vars c (\<lambda>l. l\<lparr>alive := False\<rparr>) (keyed_stop c w) else w)"
| "step (CallMarkStale c) w =
     (case resource (consumers w c) of None \<Rightarrow> w | Some keyStatic \<Rightarrow> markStale keyStatic w)"
| "step (CallReset k) w = reset k w"
| "step (StoreSetNew k s) w =
     (let r = next_ref w
      in w\<lparr>heap := (heap w)(r := s), next_ref := Suc r,
           storage := store_set (storage w) k (Some r)\<rparr>)"
| "step (StoreSetRef k r) w =
     (if r < next_ref w then w\<lparr>storage := store_set (storage w) k (Some r)\<rparr> else w)"
| "step (StoreSetNull k) w = w\<lparr>storage := store_set (storage w) k None\<rparr>"
| "step StoreClear w = w\<lparr>storage := Map.empty\<rparr>"
| "step (Overwrite r s) w = (if r < next_ref w then modify r (\<lambda>_. s) w else w)"
| "step (OperationResolves t v) w = operation_resolves t v w"
| "step (OperationRejects t err) w = operation_rejects t err w"
| "step (OperationOnAbort t throws) w = onAbort t (UserHook throws) w"
| "step (KeyJob c) w = key_job c w"
| "step (OwnershipJob c) w = ownership_job c w"
| "step (WheneverJob c) w = whenever_job c w"
| "step (ConditionalJob c) w = conditional_job c w"
| "step (FetchJob c) w = fetch_job c w"
| "step Microtask w = run_microtask w"
| "step (Resume t) w = executeFetch_resume t w"
| "step (Finally t) w = fetch_finally t w"

fun run :: "('a, 'e) event list \<Rightarrow> ('a, 'e) world \<Rightarrow> ('a, 'e) world" where
  "run [] w = w"
| "run (ev # evs) w = run evs (step ev w)"

text \<open>Before anything has happened: no object, an empty store, no task, no consumer.\<close>

definition no_consumer :: consumer where
  "no_consumer =
     \<lparr>alive = False, keyReactive = None, key_old = None, keyed_scope = None, committed = False,
      state_old = None, no_state_old = False, confirmed_old = False, engine_scope = False,
      currentFetchTask = None, trigger_old = (False, None), resource = None\<rparr>"

definition world0 :: "('a, 'e) world" where
  "world0 =
     \<lparr>heap = (\<lambda>r. initial_state), next_ref = 0, storage = createAmnesiaStore, tasks = Map.empty,
      next_tid = 0, consumers = (\<lambda>c. no_consumer), microtasks = []\<rparr>"

section \<open>Example executions\<close>

text \<open>
  A consumer binds the key \<^verbatim>\<open>'static'\<close> in an empty store: the queued \<^verbatim>\<open>reset\<close> creates
  the entry, the watchers run (the ownership watcher commits), the engine starts and
  begins the first fetch task (task 0, on object 0).
\<close>

definition example_key :: ResourceKey where
  "example_key = KeyString ''static''"

definition example_in_flight :: "(string, string) event list" where
  "example_in_flight =
     [UseSwr 0 (Some example_key), Microtask, OwnershipJob 0, WheneverJob 0, ConditionalJob 0]"

text \<open>
  Then the operation resolves with \<^verbatim>\<open>'v1'\<close>, the result is committed, \<^verbatim>\<open>markStale()\<close> is
  called and the engine begins a second fetch task (task 1, on the same object).
\<close>

definition example_refresh :: "(string, string) event list" where
  "example_refresh =
     example_in_flight @ [OperationResolves 0 ''v1'', Resume 0, Finally 0, FetchJob 0,
                          CallMarkStale 0, FetchJob 0]"

text \<open>
  While the first fetch task is in flight, the store is cleared from outside
  (\<^verbatim>\<open>store.storage.clear()\<close>) and the consumer's \<^verbatim>\<open>whenever\<close> queues a \<^verbatim>\<open>reset\<close>.
\<close>

definition example_cleared :: "(string, string) event list" where
  "example_cleared = example_in_flight @ [StoreClear, WheneverJob 0]"

text \<open>
  The execution of \<open>example_in_flight\<close> before the engine starts: the entry exists, the
  consumer is committed and the only owner.
\<close>

definition example_confirmed :: "(string, string) event list" where
  "example_confirmed = [UseSwr 0 (Some example_key), Microtask, OwnershipJob 0, WheneverJob 0]"

text \<open>Somebody clears the \<^verbatim>\<open>pending\<close> flag of object 0 from outside.\<close>

definition example_pending_cleared :: "(string, string) event list" where
  "example_pending_cleared =
     [Overwrite 0 \<lparr>data = None, error = None, pending = False, fresh = False, owners = 1\<rparr>]"

text \<open>
  While the first fetch task is in flight, the application changes the key of the fetch
  configuration to \<^verbatim>\<open>'bar'\<close> and calls \<^verbatim>\<open>reset()\<close> of the handle it still holds; then the
  key watcher runs.
\<close>

definition example_underflow :: "(string, string) event list" where
  "example_underflow =
     example_in_flight @ [SetKey 0 (Some (KeyString ''bar'')), CallReset example_key, KeyJob 0]"

text \<open>
  The first fetch task is in flight and every watcher of the consumer has run. After a
  \<^verbatim>\<open>reset()\<close>, one order in which the watchers may run: the watcher of
  \<^verbatim>\<open>useConditionalScope\<close> first (it stops the engine, as \<^verbatim>\<open>owners\<close> is 0), then the ownership
  watcher, then \<^verbatim>\<open>useConditionalScope\<close> again (it starts the engine anew).
\<close>

definition example_settled :: "(string, string) event list" where
  "example_settled = example_in_flight @ [FetchJob 0]"

definition example_restart :: "(string, string) event list" where
  "example_restart = [ConditionalJob 0, OwnershipJob 0, ConditionalJob 0, FetchJob 0]"

text \<open>
  The first fetch has resolved with \<^verbatim>\<open>'v1'\<close>, the result is committed and the watcher of the
  engine has run: the consumer is confirmed, the entry is fresh, nothing is left to do.
\<close>

definition example_fetched :: "(string, string) event list" where
  "example_fetched =
     example_in_flight @ [OperationResolves 0 ''v1'', Resume 0, Finally 0, FetchJob 0]"

text \<open>
  A second consumer binds the key before the engine of the first one has started: the
  entry has two owners, nobody is confirmed and nothing is fetched.
\<close>

definition example_shared :: "(string, string) event list" where
  "example_shared =
     [UseSwr 0 (Some example_key), Microtask, OwnershipJob 0, WheneverJob 0,
      UseSwr 1 (Some example_key)]"

text \<open>
  While the first fetch task is in flight, the key of the fetch configuration is changed
  to \<^verbatim>\<open>'bar'\<close> and, after the key watcher has run, back to \<^verbatim>\<open>'static'\<close>; or the consumer is
  unmounted and a second consumer binds the key.
\<close>

definition example_rebound :: "(string, string) event list" where
  "example_rebound =
     example_in_flight @ [SetKey 0 (Some (KeyString ''bar'')), KeyJob 0,
                          SetKey 0 (Some example_key), KeyJob 0]"

definition example_handover :: "(string, string) event list" where
  "example_handover = example_in_flight @ [Unmount 0, UseSwr 1 (Some example_key)]"

text \<open>
  The two halves of \<open>example_underflow\<close>: the key change with the run of the key watcher
  and no \<^verbatim>\<open>reset()\<close>; and the key change and the \<^verbatim>\<open>reset()\<close> before the key watcher runs.
\<close>

definition example_key_changed :: "(string, string) event list" where
  "example_key_changed = example_in_flight @ [SetKey 0 (Some (KeyString ''bar'')), KeyJob 0]"

definition example_reset_pending :: "(string, string) event list" where
  "example_reset_pending =
     example_in_flight @ [SetKey 0 (Some (KeyString ''bar'')), CallReset example_key]"

section \<open>Well-formed worlds and what an execution keeps\<close>

text \<open>
  A world is well formed when every task has an identifier below \<open>next_tid\<close>, a state
  object below \<open>next_ref\<close> and \<^verbatim>\<open>executeFetch\<close>'s abort hook among its hooks, and when the
  store and the values remembered by the watchers hold objects below \<open>next_ref\<close> only.
\<close>

definition wf :: "('a, 'e) world \<Rightarrow> bool" where
  "wf w \<longleftrightarrow>
     (\<forall>t tk. tasks w t = Some tk \<longrightarrow>
        t < next_tid w \<and> task_state tk < next_ref w \<and> ResolveAborted \<in> set (task_hooks tk))
     \<and> (\<forall>k r. storage w k = Some (Some r) \<longrightarrow> r < next_ref w)
     \<and> (\<forall>c r. state_old (consumers w c) = Some r \<longrightarrow> r < next_ref w)
     \<and> (\<forall>c r. snd (trigger_old (consumers w c)) = Some r \<longrightarrow> r < next_ref w)"

text \<open>
  \<open>later w w'\<close>: no object of \<open>w\<close> is missing in \<open>w'\<close>, and every task of \<open>w\<close> is a task of
  \<open>w'\<close>, with the same state object and owner, and with the same promise if that was
  settled in \<open>w\<close>.
\<close>

definition later :: "('a, 'e) world \<Rightarrow> ('a, 'e) world \<Rightarrow> bool" where
  "later w w' \<longleftrightarrow>
     next_ref w \<le> next_ref w'
     \<and> (\<forall>t tk. tasks w t = Some tk \<longrightarrow>
          (\<exists>tk'. tasks w' t = Some tk' \<and> task_state tk' = task_state tk
                 \<and> task_owner tk' = task_owner tk
                 \<and> (task_promise tk \<noteq> Unsettled \<longrightarrow> task_promise tk' = task_promise tk)))"

definition preserves :: "(('a, 'e) world \<Rightarrow> ('a, 'e) world) \<Rightarrow> bool" where
  "preserves F \<longleftrightarrow> (\<forall>w. wf w \<longrightarrow> wf (F w) \<and> later w (F w))"

section \<open>Notions for the properties\<close>

text \<open>
  What can still happen to a fetch task \<open>t\<close> once it is started: its operation resolves or
  rejects, \<^verbatim>\<open>executeFetch\<close> resumes, the \<^verbatim>\<open>.finally\<close> callback runs.
\<close>

definition task_steps :: "tid \<Rightarrow> 'a \<Rightarrow> 'e \<Rightarrow> ('a, 'e) event list" where
  "task_steps t v err = [OperationResolves t v, OperationRejects t err, Resume t, Finally t]"

text \<open>
  The promise of the task was settled by the abort hook: the abort signal came before the
  operation settled.
\<close>

definition aborted :: "tid \<Rightarrow> ('a, 'e) world \<Rightarrow> bool" where
  "aborted t w =
     (case tasks w t of
        None \<Rightarrow> False
      | Some tk \<Rightarrow> task_promise tk = Resolved FETCH_TASK_ABORTED)"

text \<open>
  The event stores a new object under the key \<open>k\<close>: a call of \<^verbatim>\<open>reset()\<close> for \<open>k\<close>, through
  a handle or queued by the \<^verbatim>\<open>whenever\<close> of a consumer that found no entry, or a
  \<^verbatim>\<open>store.set\<close> from outside with a new object.
\<close>

fun installs :: "('a, 'e) event \<Rightarrow> ResourceKey \<Rightarrow> ('a, 'e) world \<Rightarrow> bool" where
  "installs (CallReset k') k w = (k' = k)"
| "installs (StoreSetNew k' s) k w = (k' = k)"
| "installs Microtask k w = (case microtasks w of [] \<Rightarrow> False | k' # rest \<Rightarrow> k' = k)"
| "installs ev k w = False"

text \<open>
  The jobs of the four watchers of a consumer's keyed scope, and the worlds in which none
  of them has anything to do: every source has the value its watcher remembers (the
  watcher of the engine counts only while the engine's scope exists).
\<close>

definition watcher_jobs :: "cid \<Rightarrow> ('a, 'e) event list" where
  "watcher_jobs c = [OwnershipJob c, WheneverJob c, ConditionalJob c, FetchJob c]"

definition settled :: "cid \<Rightarrow> ('a, 'e) world \<Rightarrow> bool" where
  "settled c w =
     (let l = consumers w c
      in case keyed_scope l of
           None \<Rightarrow> True
         | Some keyStatic \<Rightarrow>
             state_value w keyStatic = state_old l
             \<and> (state_value w keyStatic = None) = no_state_old l
             \<and> confirmed c keyStatic w = confirmed_old l
             \<and> (engine_scope l \<longrightarrow>
                  (triggerExecuteFetch keyStatic w, state_value w keyStatic) = trigger_old l))"

text \<open>
  For the proof that a \<^verbatim>\<open>reset()\<close> is followed by a new fetch: a task of the consumer on
  the object \<open>r\<close> has been begun; and what holds of the new object \<open>r\<close> until then (the
  store holds it for the key, it is neither pending nor fresh, the watcher of the engine
  has not seen it, and it counts this consumer once the ownership watcher has seen it).
\<close>

definition begun_on :: "ref \<Rightarrow> cid \<Rightarrow> ('a, 'e) world \<Rightarrow> bool" where
  "begun_on r c w \<longleftrightarrow> (\<exists>t tk. tasks w t = Some tk \<and> task_state tk = r \<and> task_owner tk = c)"

definition armed :: "cid \<Rightarrow> ResourceKey \<Rightarrow> ref \<Rightarrow> ('a, 'e) world \<Rightarrow> bool" where
  "armed c k r w \<longleftrightarrow>
     state_value w k = Some r \<and> keyed_scope (consumers w c) = Some k
     \<and> engine_scope (consumers w c) = confirmed_old (consumers w c)
     \<and> \<not> pending (heap w r) \<and> \<not> fresh (heap w r)
     \<and> snd (trigger_old (consumers w c)) \<noteq> Some r
     \<and> (if state_old (consumers w c) = Some r
         then owners (heap w r) = 1 \<and> committed (consumers w c)
         else owners (heap w r) = 0)"

text \<open>
  The task exists and \<^verbatim>\<open>executeFetch\<close> is suspended at its \<^verbatim>\<open>await\<close>; and the functions that
  leave such a task so.
\<close>

definition awaiting :: "tid \<Rightarrow> ('a, 'e) world \<Rightarrow> bool" where
  "awaiting t w \<longleftrightarrow> t < next_tid w \<and> (\<exists>tk. tasks w t = Some tk \<and> task_phase tk = Awaiting)"

definition keeps :: "tid \<Rightarrow> (('a, 'e) world \<Rightarrow> ('a, 'e) world) \<Rightarrow> bool" where
  "keeps t F \<longleftrightarrow> (\<forall>w. awaiting t w \<longrightarrow> awaiting t (F w))"

text \<open>
  For the fetch tasks an event begins. \<open>counted w\<close>: the tasks of \<open>w\<close> are those with an
  identifier below \<open>next_tid w\<close>. \<open>begins c k F\<close>: the function \<open>F\<close> keeps this, leaves the
  store alone, clears no \<^verbatim>\<open>pending\<close> flag and writes no \<^verbatim>\<open>fresh\<close> flag, keeps the state object,
  the owner and \<open>invoked_at\<close> of every task; and a task it begins is a task of the consumer
  \<open>c\<close> on the entry the store holds for \<open>k\<close>, the trigger held for \<open>k\<close> before \<open>F\<close>, and the
  operation was invoked with \<^verbatim>\<open>pending\<close> true and \<^verbatim>\<open>fresh\<close> false. \<open>invoked_pending w\<close>: every
  task of \<open>w\<close> was so invoked.
\<close>

definition counted :: "('a, 'e) world \<Rightarrow> bool" where
  "counted w \<longleftrightarrow> (\<forall>t. tasks w t \<noteq> None \<longleftrightarrow> t < next_tid w)"

definition begins :: "cid \<Rightarrow> ResourceKey \<Rightarrow> (('a, 'e) world \<Rightarrow> ('a, 'e) world) \<Rightarrow> bool" where
  "begins c k F \<longleftrightarrow>
     (\<forall>w. counted w \<longrightarrow>
        counted (F w) \<and> storage (F w) = storage w
        \<and> (\<forall>r. (pending (heap w r) \<longrightarrow> pending (heap (F w) r))
                \<and> fresh (heap (F w) r) = fresh (heap w r))
        \<and> (\<forall>t tk. tasks w t = Some tk \<longrightarrow>
              (\<exists>tk'. tasks (F w) t = Some tk' \<and> task_state tk' = task_state tk
                     \<and> task_owner tk' = task_owner tk \<and> invoked_at tk' = invoked_at tk))
        \<and> (\<forall>t tk. tasks w t = None \<and> tasks (F w) t = Some tk \<longrightarrow>
              task_owner tk = c \<and> state_value w k = Some (task_state tk)
              \<and> triggerExecuteFetch k w \<and> pending (invoked_at tk) \<and> \<not> fresh (invoked_at tk)))"

definition invoked_pending :: "('a, 'e) world \<Rightarrow> bool" where
  "invoked_pending w \<longleftrightarrow>
     counted w \<and> (\<forall>t tk. tasks w t = Some tk \<longrightarrow> pending (invoked_at tk) \<and> \<not> fresh (invoked_at tk))"

text \<open>
  \<open>at_rest c k r w\<close>: the consumer \<open>c\<close> is bound to the key \<open>k\<close>, the store holds the object
  \<open>r\<close> for it, the consumer's watchers have nothing to do, and its engine is active
  exactly if it is confirmed.

  \<open>due c k r w\<close>: a fetch on \<open>r\<close> is due. The consumer is confirmed and the trigger holds; the
  ownership watcher and the \<^verbatim>\<open>whenever\<close> have seen the entry; the engine is active exactly if
  the watcher of \<^verbatim>\<open>useConditionalScope\<close> has seen the consumer confirmed, and its watcher, if
  it is, has not seen the trigger. \<open>started c k r w\<close>: the watcher of the engine has seen the
  trigger and begun the fetch, and has not run since. \<open>begun_since n r c w\<close>: there is a
  task of \<open>c\<close> on \<open>r\<close> with an identifier from \<open>n\<close> on.
\<close>

definition at_rest :: "cid \<Rightarrow> ResourceKey \<Rightarrow> ref \<Rightarrow> ('a, 'e) world \<Rightarrow> bool" where
  "at_rest c k r w \<longleftrightarrow>
     keyed_scope (consumers w c) = Some k \<and> state_value w k = Some r \<and> settled c w
     \<and> engine_scope (consumers w c) = confirmed c k w"

definition due :: "cid \<Rightarrow> ResourceKey \<Rightarrow> ref \<Rightarrow> ('a, 'e) world \<Rightarrow> bool" where
  "due c k r w \<longleftrightarrow>
     state_value w k = Some r \<and> keyed_scope (consumers w c) = Some k
     \<and> state_old (consumers w c) = Some r \<and> \<not> no_state_old (consumers w c)
     \<and> engine_scope (consumers w c) = confirmed_old (consumers w c)
     \<and> confirmed c k w \<and> triggerExecuteFetch k w
     \<and> (engine_scope (consumers w c) \<longrightarrow> trigger_old (consumers w c) \<noteq> (True, Some r))"

definition started :: "cid \<Rightarrow> ResourceKey \<Rightarrow> ref \<Rightarrow> ('a, 'e) world \<Rightarrow> bool" where
  "started c k r w \<longleftrightarrow>
     state_value w k = Some r \<and> keyed_scope (consumers w c) = Some k
     \<and> state_old (consumers w c) = Some r \<and> \<not> no_state_old (consumers w c)
     \<and> engine_scope (consumers w c) \<and> confirmed_old (consumers w c)
     \<and> confirmed c k w \<and> pending (heap w r)
     \<and> trigger_old (consumers w c) = (True, Some r)"

definition begun_since :: "tid \<Rightarrow> ref \<Rightarrow> cid \<Rightarrow> ('a, 'e) world \<Rightarrow> bool" where
  "begun_since n r c w \<longleftrightarrow>
     (\<exists>t tk. n \<le> t \<and> tasks w t = Some tk \<and> task_state tk = r \<and> task_owner tk = c)"

section \<open>Basic facts\<close>

lemma modify_proj [simp]:
  "next_ref (modify r f w) = next_ref w" "next_tid (modify r f w) = next_tid w"
  "tasks (modify r f w) = tasks w" "storage (modify r f w) = storage w"
  "consumers (modify r f w) = consumers w" "microtasks (modify r f w) = microtasks w"
  "heap (modify r f w) = (heap w)(r := f (heap w r))"
  by (simp_all add: modify_def)

lemma local_vars_proj [simp]:
  "next_ref (local_vars c f w) = next_ref w" "next_tid (local_vars c f w) = next_tid w"
  "tasks (local_vars c f w) = tasks w" "storage (local_vars c f w) = storage w"
  "heap (local_vars c f w) = heap w" "microtasks (local_vars c f w) = microtasks w"
  "consumers (local_vars c f w) = (consumers w)(c := f (consumers w c))"
  by (simp_all add: local_vars_def)

lemma task_update_proj [simp]:
  "next_ref (task_update t f w) = next_ref w" "next_tid (task_update t f w) = next_tid w"
  "storage (task_update t f w) = storage w" "heap (task_update t f w) = heap w"
  "consumers (task_update t f w) = consumers w" "microtasks (task_update t f w) = microtasks w"
  "tasks (task_update t f w) = (tasks w)(t := map_option f (tasks w t))"
  by (simp_all add: task_update_def)

lemma state_value_simps [simp]:
  "state_value (modify r f w) k = state_value w k"
  "state_value (local_vars c g w) k = state_value w k"
  "state_value (task_update t h w) k = state_value w k"
  by (simp_all add: state_value_def)

lemma promise_resolve_idem:
  "promise_resolve t x (promise_resolve t y w) = promise_resolve t y w"
  by (cases "tasks w t") (auto simp: promise_resolve_def task_update_def fun_eq_iff)

lemma abort_hooks_eq:
  "abort_hooks t hs w =
     (if ResolveAborted \<in> set hs then promise_resolve t FETCH_TASK_ABORTED w else w)"
proof (induction hs arbitrary: w)
  case Nil
  then show ?case by simp
next
  case (Cons h hs)
  show ?case
  proof (cases h)
    case ResolveAborted
    then show ?thesis using Cons by (simp add: promise_resolve_idem)
  next
    case (UserHook b)
    then show ?thesis using Cons by simp
  qed
qed

text \<open>The definitions of the model, for the evaluation of executions.\<close>

lemmas model_defs =
  world0_def no_consumer_def createAmnesiaStore_def store_get_def store_set_def
  state_value_def initial_state_def reset_def markStale_def whenever_no_state_def
  run_microtask_def confirmed_def ownership_watch_def ownership_dispose_def onAbort_def
  promise_resolve_def promise_reject_def operation_resolves_def operation_rejects_def
  abort_def executeFetch_start_def executeFetch_resume_def abortFetchTaskIfThereIsSome_def
  triggerExecuteFetch_def fetch_watch_def fetch_finally_def ownership_run_def whenever_run_def
  fetch_run_def engine_setup_def engine_dispose_def conditional_watch_def conditional_run_def
  keyed_setup_def keyed_stop_def key_watch_def key_run_def key_job_def ownership_job_def
  whenever_job_def conditional_job_def fetch_job_def modify_def local_vars_def task_update_def
  Let_def example_key_def example_in_flight_def example_refresh_def example_cleared_def
  example_confirmed_def example_pending_cleared_def example_underflow_def
  example_settled_def example_restart_def example_fetched_def example_shared_def
  example_rebound_def example_handover_def example_key_changed_def example_reset_pending_def

section \<open>Every event keeps a world well formed\<close>

lemma later_refl: "later w w" by (simp add: later_def)

lemma later_trans: "later w w' \<Longrightarrow> later w' w'' \<Longrightarrow> later w w''"
  unfolding later_def
  apply (intro conjI allI impI)
   apply simp
  apply (elim conjE)
  subgoal for t tk
    apply (drule_tac x=t in spec, drule_tac x=tk in spec)
    apply (erule impE, assumption)
    apply (erule exE)
    subgoal for tk'
      apply (drule_tac x=t in spec, drule_tac x=tk' in spec)
      apply auto
      done
    done
  done

lemma preserves_id: "preserves (\<lambda>w. w)"
  by (simp add: preserves_def later_refl)

lemma preserves_comp: "preserves F \<Longrightarrow> preserves G \<Longrightarrow> preserves (\<lambda>w. G (F w))"
  unfolding preserves_def by (blast intro: later_trans)

lemma preserves_if: "preserves F \<Longrightarrow> preserves G \<Longrightarrow> preserves (\<lambda>w. if b w then F w else G w)"
  unfolding preserves_def by simp

lemma preserves_option:
  "preserves F \<Longrightarrow> (\<And>x. preserves (G x)) \<Longrightarrow>
   preserves (\<lambda>w. case sel w of None \<Rightarrow> F w | Some x \<Rightarrow> G x w)"
  unfolding preserves_def by (simp split: option.split)

lemma preserves_modify: "preserves (modify r f)"
  by (simp add: preserves_def wf_def later_def)

lemma state_value_bound: "wf w \<Longrightarrow> state_value w k = Some r \<Longrightarrow> r < next_ref w"
  by (auto simp: wf_def state_value_def store_get_def split: option.splits)

lemma preserves_reset: "preserves (reset k)"
  by (auto simp: preserves_def wf_def later_def reset_def Let_def store_set_def less_Suc_eq split: if_splits)

lemma preserves_markStale: "preserves (markStale k)"
  unfolding markStale_def by (intro preserves_option preserves_id preserves_modify)

lemma preserves_whenever_no_state: "preserves (whenever_no_state k v)"
  by (simp add: preserves_def wf_def later_def whenever_no_state_def)

lemma preserves_run_microtask: "preserves run_microtask"
  by (auto simp: preserves_def wf_def later_def run_microtask_def reset_def Let_def store_set_def
        less_Suc_eq split: list.splits if_splits)

lemma preserves_local_vars:
  assumes "\<And>l. state_old (f l) = state_old l" "\<And>l. trigger_old (f l) = trigger_old l"
  shows "preserves (local_vars c f)"
  using assms by (simp add: preserves_def wf_def later_def)

lemma preserves_ownership_watch: "preserves (ownership_watch c st)"
  unfolding ownership_watch_def
  by (cases st) (auto intro!: preserves_comp[OF preserves_modify] preserves_local_vars preserves_id)

lemma preserves_ownership_dispose: "preserves (ownership_dispose c k)"
  unfolding ownership_dispose_def
  by (intro preserves_if preserves_option preserves_id preserves_modify)

lemma preserves_task_update:
  assumes "\<And>tk. task_state (f tk) = task_state tk" "\<And>tk. task_owner (f tk) = task_owner tk"
    "\<And>tk. set (task_hooks tk) \<subseteq> set (task_hooks (f tk))"
    "\<And>tk. task_promise tk \<noteq> Unsettled \<Longrightarrow> task_promise (f tk) = task_promise tk"
  shows "preserves (task_update t f)"
  using assms unfolding preserves_def wf_def later_def
  by (auto simp: subset_iff)

lemma preserves_onAbort: "preserves (onAbort t h)"
  unfolding onAbort_def by (rule preserves_task_update) auto

lemma preserves_promise_resolve: "preserves (promise_resolve t x)"
  unfolding promise_resolve_def by (rule preserves_task_update) auto

lemma preserves_promise_reject: "preserves (promise_reject t x)"
  unfolding promise_reject_def by (rule preserves_task_update) auto

lemma abort_eq:
  "abort t w =
     (case tasks w t of
        None \<Rightarrow> w
      | Some tk \<Rightarrow>
          if ResolveAborted \<in> set (task_hooks tk) then promise_resolve t FETCH_TASK_ABORTED w else w)"
  by (simp add: abort_def abort_hooks_eq split: option.split)

lemma preserves_abort: "preserves (abort t)"
  unfolding abort_eq
  by (intro preserves_option preserves_if preserves_id preserves_promise_resolve)

lemma preserves_executeFetch_start:
  "wf w \<Longrightarrow> r < next_ref w \<Longrightarrow> wf (executeFetch_start c r w) \<and> later w (executeFetch_start c r w)"
  by (auto simp: wf_def later_def executeFetch_start_def Let_def onAbort_def less_Suc_eq)

lemma preserves_executeFetch_resume: "preserves (executeFetch_resume t)"
  unfolding executeFetch_resume_def
  by (auto simp: preserves_def wf_def later_def split: option.splits promise.splits fetch_result.splits)

lemma preservesD: "preserves F \<Longrightarrow> wf w \<Longrightarrow> wf (F w) \<and> later w (F w)"
  by (simp add: preserves_def)

lemma preserves_let: "(\<And>v. preserves (F v)) \<Longrightarrow> preserves (\<lambda>w. let v = e w in F v w)"
  by (simp add: preserves_def)

lemma preserves_abortFetchTaskIfThereIsSome: "preserves (abortFetchTaskIfThereIsSome c)"
proof -
  have 1: "preserves (\<lambda>w. case currentFetchTask (consumers w c) of None \<Rightarrow> w | Some t \<Rightarrow> abort t w)"
    by (rule preserves_option[OF preserves_id preserves_abort])
  have 2: "preserves (local_vars c (\<lambda>l. l\<lparr>currentFetchTask := None\<rparr>))"
    by (rule preserves_local_vars) simp_all
  show ?thesis
    unfolding abortFetchTaskIfThereIsSome_def using preserves_comp[OF 1 2] by simp
qed

lemma preserves_fetch_watch: "preserves (fetch_watch c k)"
  unfolding preserves_def
proof (intro allI impI)
  fix w :: "('a, 'b) world"
  assume wf: "wf w"
  let ?w1 = "abortFetchTaskIfThereIsSome c w"
  have w1: "wf ?w1" "later w ?w1"
    using preservesD[OF preserves_abortFetchTaskIfThereIsSome wf] by simp_all
  show "wf (fetch_watch c k w) \<and> later w (fetch_watch c k w)"
  proof (cases "triggerExecuteFetch k w")
    case False
    then show ?thesis using wf by (simp add: fetch_watch_def later_refl)
  next
    case True
    show ?thesis
    proof (cases "state_value ?w1 k")
      case None
      then show ?thesis using True w1 by (simp add: fetch_watch_def)
    next
      case (Some r)
      then have "r < next_ref ?w1" using w1(1) by (rule state_value_bound[rotated])
      then have s: "wf (executeFetch_start c r ?w1)" "later ?w1 (executeFetch_start c r ?w1)"
        using preserves_executeFetch_start[OF w1(1)] by simp_all
      have p: "preserves (local_vars c (\<lambda>l. l\<lparr>currentFetchTask := Some (next_tid ?w1)\<rparr>))"
        by (rule preserves_local_vars) simp_all
      have l: "later w (executeFetch_start c r ?w1)"
        using w1(2) s(2) by (rule later_trans)
      from preservesD[OF p s(1)] l have
        "wf (local_vars c (\<lambda>l. l\<lparr>currentFetchTask := Some (next_tid ?w1)\<rparr>) (executeFetch_start c r ?w1))
         \<and> later w (local_vars c (\<lambda>l. l\<lparr>currentFetchTask := Some (next_tid ?w1)\<rparr>) (executeFetch_start c r ?w1))"
        using later_trans by blast
      then show ?thesis
        using True Some by (simp add: fetch_watch_def Let_def)
    qed
  qed
qed

lemma preserves_fetch_finally: "preserves (fetch_finally t)"
proof -
  have u: "preserves (task_update t (\<lambda>tk. tk\<lparr>task_phase := Finalized\<rparr>))"
    by (rule preserves_task_update) simp_all
  have lv: "preserves (local_vars c (\<lambda>l. l\<lparr>currentFetchTask := None\<rparr>))" for c
    by (rule preserves_local_vars) simp_all
  have "wf (fetch_finally t w) \<and> later w (fetch_finally t w)" if wf: "wf w" for w :: "('a, 'b) world"
  proof (cases "tasks w t")
    case None
    then show ?thesis using wf by (simp add: fetch_finally_def later_refl)
  next
    case (Some tk)
    show ?thesis
    proof (cases "task_phase tk = Returned")
      case False
      then show ?thesis using wf Some by (simp add: fetch_finally_def later_refl)
    next
      case True
      show ?thesis
      proof (cases "currentFetchTask (consumers w (task_owner tk)) = Some t")
        case True
        from preservesD[OF preserves_comp[OF lv u] wf]
        show ?thesis using Some \<open>task_phase tk = Returned\<close> True by (simp add: fetch_finally_def)
      next
        case False
        from preservesD[OF u wf]
        show ?thesis using Some \<open>task_phase tk = Returned\<close> False by (simp add: fetch_finally_def)
      qed
    qed
  qed
  then show ?thesis by (simp add: preserves_def)
qed

lemma preserves_ownership_run: "preserves (ownership_run c k)"
  unfolding preserves_def
proof (intro allI impI)
  fix w :: "('a, 'b) world"
  assume wf: "wf w"
  let ?w1 = "local_vars c (\<lambda>l. l\<lparr>state_old := state_value w k\<rparr>) w"
  have "wf ?w1 \<and> later w ?w1"
    using wf state_value_bound[OF wf, of k] by (auto simp: wf_def later_def)
  with preservesD[OF preserves_ownership_watch, of ?w1 c "state_value w k"]
  have "wf (ownership_watch c (state_value w k) ?w1) \<and> later w (ownership_watch c (state_value w k) ?w1)"
    using later_trans by blast
  then show "wf (ownership_run c k w) \<and> later w (ownership_run c k w)"
    by (simp add: ownership_run_def Let_def)
qed

lemma preserves_whenever_run: "preserves (whenever_run c k)"
proof -
  have 1: "preserves (local_vars c (\<lambda>l. l\<lparr>no_state_old := v\<rparr>))" for v
    by (rule preserves_local_vars) simp_all
  have "preserves (\<lambda>w. whenever_no_state k v (local_vars c (\<lambda>l. l\<lparr>no_state_old := v\<rparr>) w))" for v
    by (rule preserves_comp[OF 1 preserves_whenever_no_state[of k v]])
  then show ?thesis
    unfolding whenever_run_def preserves_def Let_def by blast
qed

lemma preserves_fetch_run: "preserves (fetch_run c k)"
  unfolding preserves_def
proof (intro allI impI)
  fix w :: "('a, 'b) world"
  assume wf: "wf w"
  let ?v = "(triggerExecuteFetch k w, state_value w k)"
  let ?w1 = "local_vars c (\<lambda>l. l\<lparr>trigger_old := ?v\<rparr>) w"
  have "wf ?w1 \<and> later w ?w1"
    using wf state_value_bound[OF wf, of k] by (auto simp: wf_def later_def)
  with preservesD[OF preserves_fetch_watch, of ?w1 c k]
  have "wf (fetch_watch c k ?w1) \<and> later w (fetch_watch c k ?w1)"
    using later_trans by blast
  then show "wf (fetch_run c k w) \<and> later w (fetch_run c k w)"
    by (simp add: fetch_run_def Let_def)
qed

lemma preserves_engine_setup: "preserves (engine_setup c k)"
proof -
  have 1: "preserves (local_vars c (\<lambda>l. l\<lparr>currentFetchTask := None\<rparr>))"
    by (rule preserves_local_vars) simp_all
  have 2: "preserves (local_vars c (\<lambda>l. l\<lparr>resource := Some k\<rparr>))"
    by (rule preserves_local_vars) simp_all
  show ?thesis
    unfolding engine_setup_def
    using preserves_comp[OF preserves_comp[OF 1 preserves_fetch_run[of c k]] 2] by simp
qed

lemma preserves_engine_dispose: "preserves (engine_dispose c)"
proof -
  have 2: "preserves (local_vars c (\<lambda>l. l\<lparr>resource := None\<rparr>))"
    by (rule preserves_local_vars) simp_all
  show ?thesis
    unfolding engine_dispose_def
    using preserves_comp[OF preserves_abortFetchTaskIfThereIsSome[of c] 2] by simp
qed

lemma preserves_conditional_watch: "preserves (conditional_watch c k v)"
proof (cases v)
  case True
  have 1: "preserves (local_vars c (\<lambda>l. l\<lparr>engine_scope := True\<rparr>))"
    by (rule preserves_local_vars) simp_all
  show ?thesis using True preserves_comp[OF 1 preserves_engine_setup[of c k]]
    unfolding preserves_def by (simp add: conditional_watch_def)
next
  case False
  have 1: "preserves (local_vars c (\<lambda>l. l\<lparr>engine_scope := False\<rparr>))"
    by (rule preserves_local_vars) simp_all
  have 2: "preserves (\<lambda>w. if engine_scope (consumers w c) then engine_dispose c w else w)"
    by (rule preserves_if[OF preserves_engine_dispose[of c] preserves_id])
  show ?thesis using False preserves_comp[OF 2 1]
    unfolding preserves_def by (simp add: conditional_watch_def)
qed

lemma preserves_conditional_run: "preserves (conditional_run c k)"
proof -
  have 1: "preserves (local_vars c (\<lambda>l. l\<lparr>confirmed_old := v\<rparr>))" for v
    by (rule preserves_local_vars) simp_all
  have "preserves (\<lambda>w. conditional_watch c k v (local_vars c (\<lambda>l. l\<lparr>confirmed_old := v\<rparr>) w))" for v
    by (rule preserves_comp[OF 1 preserves_conditional_watch[of c k v]])
  then show ?thesis
    unfolding conditional_run_def preserves_def Let_def by blast
qed

lemma preserves_keyed_setup: "preserves (keyed_setup c k)"
proof -
  have 1: "preserves (local_vars c (\<lambda>l. l\<lparr>keyed_scope := Some k, committed := False,
                                   engine_scope := False\<rparr>))"
    by (rule preserves_local_vars) simp_all
  note 2 = preserves_comp[OF 1 preserves_ownership_run[of c k]]
  note 3 = preserves_comp[OF 2 preserves_whenever_run[of c k]]
  note 4 = preserves_comp[OF 3 preserves_conditional_run[of c k]]
  show ?thesis
    unfolding keyed_setup_def Let_def using 4 by simp
qed

lemma preserves_keyed_stop: "preserves (keyed_stop c)"
proof -
  have 1: "preserves (local_vars c (\<lambda>l. l\<lparr>keyed_scope := None, engine_scope := False\<rparr>))"
    by (rule preserves_local_vars) simp_all
  have 2: "preserves (\<lambda>w. if engine_scope (consumers w c) then engine_dispose c w else w)"
    by (rule preserves_if[OF preserves_engine_dispose[of c] preserves_id])
  have 3: "preserves (\<lambda>w. local_vars c (\<lambda>l. l\<lparr>keyed_scope := None, engine_scope := False\<rparr>)
            (if engine_scope (consumers (ownership_dispose c k w) c)
             then engine_dispose c (ownership_dispose c k w) else ownership_dispose c k w))" for k
    using preserves_comp[OF preserves_comp[OF preserves_ownership_dispose[of c k] 2] 1] by simp
  show ?thesis
    unfolding keyed_stop_def Let_def
    by (rule preserves_option[OF preserves_id 3])
qed

lemma preserves_key_watch: "preserves (key_watch c key)"
proof (cases key)
  case None
  then show ?thesis using preserves_keyed_stop[of c]
    unfolding preserves_def by (simp add: key_watch_def)
next
  case (Some k)
  show ?thesis
  proof (cases "key_truthy k")
    case True
    then show ?thesis
      using Some preserves_comp[OF preserves_keyed_stop[of c] preserves_keyed_setup[of c k]]
      unfolding preserves_def by (simp add: key_watch_def)
  next
    case False
    then show ?thesis using Some preserves_keyed_stop[of c]
      unfolding preserves_def by (simp add: key_watch_def)
  qed
qed

lemma preserves_key_run: "preserves (key_run c)"
proof -
  have 1: "preserves (local_vars c (\<lambda>l. l\<lparr>key_old := v\<rparr>))" for v
    by (rule preserves_local_vars) simp_all
  have "preserves (\<lambda>w. key_watch c v (local_vars c (\<lambda>l. l\<lparr>key_old := v\<rparr>) w))" for v
    by (rule preserves_comp[OF 1 preserves_key_watch[of c v]])
  then show ?thesis
    unfolding key_run_def preserves_def Let_def by blast
qed

lemma preserves_guard:
  "(\<And>k. preserves (F k)) \<Longrightarrow>
   preserves (\<lambda>w. case sel w of None \<Rightarrow> w | Some k \<Rightarrow> if b k w then F k w else w)"
  unfolding preserves_def by (simp add: later_refl split: option.split)

lemma preserves_step: "preserves (step ev)"
proof (cases ev)
  case (UseSwr c key)
  have 1: "preserves (local_vars c (\<lambda>l. l\<lparr>alive := True, keyReactive := key,
          keyed_scope := None, engine_scope := False\<rparr>))"
    by (rule preserves_local_vars) simp_all
  have "wf (step (UseSwr c key) w) \<and> later w (step (UseSwr c key) w)"
    if "wf w" for w :: "('a, 'b) world"
  proof (cases "alive (consumers w c)")
    case True
    then show ?thesis using that by (simp add: later_refl)
  next
    case False
    then show ?thesis using preservesD[OF preserves_comp[OF 1 preserves_key_run[of c]] that]
      by simp
  qed
  then show ?thesis using UseSwr by (simp add: preserves_def)
next
  case (SetKey c key)
  have "preserves (local_vars c (\<lambda>l. l\<lparr>keyReactive := key\<rparr>))"
    by (rule preserves_local_vars) simp_all
  then show ?thesis using SetKey unfolding preserves_def by simp
next
  case (Unmount c)
  have 1: "preserves (local_vars c (\<lambda>l. l\<lparr>alive := False\<rparr>))"
    by (rule preserves_local_vars) simp_all
  have "wf (step (Unmount c) w) \<and> later w (step (Unmount c) w)"
    if "wf w" for w :: "('a, 'b) world"
  proof (cases "alive (consumers w c)")
    case True
    then show ?thesis using preservesD[OF preserves_comp[OF preserves_keyed_stop[of c] 1] that]
      by simp
  next
    case False
    then show ?thesis using that by (simp add: later_refl)
  qed
  then show ?thesis using Unmount by (simp add: preserves_def)
next
  case (CallMarkStale c)
  have "preserves (\<lambda>w :: ('a, 'b) world. case resource (consumers w c) of None \<Rightarrow> w
                                            | Some k \<Rightarrow> markStale k w)"
    by (rule preserves_option[OF preserves_id preserves_markStale])
  then show ?thesis using CallMarkStale unfolding preserves_def by simp
next
  case (CallReset k)
  then show ?thesis using preserves_reset[of k] unfolding preserves_def by simp
next
  case (StoreSetNew k s)
  have "wf (step (StoreSetNew k s) w) \<and> later w (step (StoreSetNew k s) w)"
    if "wf w" for w :: "('a, 'b) world"
  proof -
    have "wf (step (StoreSetNew k s) w)"
      using that unfolding wf_def
      by (simp add: Let_def store_set_def less_Suc_eq split: if_splits)
    moreover have "later w (step (StoreSetNew k s) w)"
      by (simp add: later_def Let_def)
    ultimately show ?thesis ..
  qed
  then show ?thesis using StoreSetNew by (simp add: preserves_def)
next
  case (StoreSetRef k r)
  have "wf (step (StoreSetRef k r) w) \<and> later w (step (StoreSetRef k r) w)"
    if "wf w" for w :: "('a, 'b) world"
    using that unfolding wf_def later_def by (simp add: store_set_def)
  then show ?thesis using StoreSetRef by (simp add: preserves_def)
next
  case (StoreSetNull k)
  have "wf (step (StoreSetNull k) w) \<and> later w (step (StoreSetNull k) w)"
    if "wf w" for w :: "('a, 'b) world"
    using that unfolding wf_def later_def by (simp add: store_set_def)
  then show ?thesis using StoreSetNull by (simp add: preserves_def)
next
  case StoreClear
  have "wf (step StoreClear w) \<and> later w (step StoreClear w)"
    if "wf w" for w :: "('a, 'b) world"
    using that unfolding wf_def later_def by simp
  then show ?thesis using StoreClear by (simp add: preserves_def)
next
  case (Overwrite r s)
  then show ?thesis using preserves_modify[of r "\<lambda>_. s"]
    unfolding preserves_def by (simp add: later_refl)
next
  case (OperationResolves t v)
  then show ?thesis using preserves_promise_resolve[of t "Fetched v"]
    unfolding preserves_def by (simp add: operation_resolves_def)
next
  case (OperationRejects t err)
  then show ?thesis using preserves_promise_reject[of t err]
    unfolding preserves_def by (simp add: operation_rejects_def)
next
  case (OperationOnAbort t throws)
  then show ?thesis using preserves_onAbort[of t "UserHook throws"]
    unfolding preserves_def by simp
next
  case (KeyJob c)
  have "preserves (key_job c)"
    unfolding key_job_def Let_def by (rule preserves_if[OF preserves_key_run preserves_id])
  then show ?thesis using KeyJob by (simp add: preserves_def)
next
  case (OwnershipJob c)
  have "preserves (ownership_job c)"
    unfolding ownership_job_def Let_def by (rule preserves_guard) (rule preserves_ownership_run)
  then show ?thesis using OwnershipJob by (simp add: preserves_def)
next
  case (WheneverJob c)
  have "preserves (whenever_job c)"
    unfolding whenever_job_def Let_def by (rule preserves_guard) (rule preserves_whenever_run)
  then show ?thesis using WheneverJob by (simp add: preserves_def)
next
  case (ConditionalJob c)
  have "preserves (conditional_job c)"
    unfolding conditional_job_def Let_def by (rule preserves_guard) (rule preserves_conditional_run)
  then show ?thesis using ConditionalJob by (simp add: preserves_def)
next
  case (FetchJob c)
  have "preserves (fetch_job c)"
    unfolding fetch_job_def Let_def by (rule preserves_guard) (rule preserves_fetch_run)
  then show ?thesis using FetchJob by (simp add: preserves_def)
next
  case Microtask
  then show ?thesis using preserves_run_microtask unfolding preserves_def by simp
next
  case (Resume t)
  then show ?thesis using preserves_executeFetch_resume[of t] unfolding preserves_def by simp
next
  case (Finally t)
  then show ?thesis using preserves_fetch_finally[of t] unfolding preserves_def by simp
qed

lemma preserves_run: "preserves (run evs)"
proof (induction evs)
  case Nil
  show ?case by (simp add: preserves_def later_refl)
next
  case (Cons ev evs)
  have "preserves (\<lambda>w. run evs (step ev w))"
    by (rule preserves_comp[OF preserves_step[of ev] Cons])
  then show ?case by (simp add: preserves_def)
qed

lemma wf_world0: "wf world0"
  by (simp add: wf_def world0_def createAmnesiaStore_def no_consumer_def)

lemma wf_reachable: "wf (run evs world0)"
  using preservesD[OF preserves_run[of evs] wf_world0] by simp

lemma later_run: "wf w \<Longrightarrow> later w (run evs w)"
  using preservesD[OF preserves_run[of evs], of w] by simp

lemma wf_run: "wf w \<Longrightarrow> wf (run evs w)"
  using preservesD[OF preserves_run[of evs], of w] by simp

section \<open>The store\<close>

lemma store_sets_other:
  "k \<notin> fst ` set calls \<Longrightarrow> store_sets m calls k = m k"
  by (induction calls arbitrary: m) (auto simp: store_set_def)

text \<open>
  C10. For the amnesia store and every key \<open>k\<close>: after \<^verbatim>\<open>set(k, s)\<close> with a state \<open>s\<close>,
  \<^verbatim>\<open>get(k)\<close> returns \<open>s\<close>; after \<^verbatim>\<open>set(k, null)\<close>, and in a new store before any \<^verbatim>\<open>set\<close> for
  \<open>k\<close>, it returns \<^verbatim>\<open>null\<close>. Calls of \<^verbatim>\<open>set\<close> for other keys in between change nothing
  of this.
\<close>

theorem amnesia_store_get_after_set:
  "store_get (store_set m k (Some s)) k = Some s
   \<and> store_get (store_set m k None) k = None
   \<and> (k \<notin> fst ` set calls \<longrightarrow>
        store_get (store_sets (store_set m k st) calls) k = st
        \<and> store_get (store_sets createAmnesiaStore calls) k = None)"
  by (simp add: store_get_def store_sets_other store_set_def createAmnesiaStore_def)

theorem amnesia_store_get_after_set_witness:
  "KeyString ''a'' \<notin> fst ` set [(KeyString ''b'', Some (2::nat)), (KeyNumber 1, None)]
   \<and> store_get (store_sets (store_set createAmnesiaStore (KeyString ''a'') (Some 1))
         [(KeyString ''b'', Some (2::nat)), (KeyNumber 1, None)]) (KeyString ''a'') = Some 1
   \<and> store_get (store_sets createAmnesiaStore [(KeyString ''b'', Some (2::nat)), (KeyNumber 1, None)])
         (KeyString ''a'') = None"
  using amnesia_store_get_after_set [of createAmnesiaStore "KeyString ''a''" 1
      "[(KeyString ''b'', Some (2::nat)), (KeyNumber 1, None)]" "Some 1"]
  by simp

section \<open>Ownership\<close>

text \<open>
  C3. In every world, the \<^verbatim>\<open>confirmed\<close> signal of a consumer for its key is true if and
  only if the store holds an entry for the key, the \<^verbatim>\<open>owners\<close> field of that entry is 1,
  and the consumer's \<^verbatim>\<open>committed\<close> flag is set.
\<close>

theorem confirmed_iff:
  "confirmed c keyStatic w \<longleftrightarrow>
     (\<exists>r. store_get (storage w) keyStatic = Some r \<and> owners (heap w r) = 1)
     \<and> committed (consumers w c)"
  by (auto simp: confirmed_def state_value_def split: option.splits)

section \<open>The resumption of executeFetch\<close>

lemma resume_resolved:
  "tasks w t = Some tk \<Longrightarrow> task_phase tk = Awaiting \<Longrightarrow> task_promise tk = Resolved (Fetched v) \<Longrightarrow>
   executeFetch_resume t w =
     task_update t (\<lambda>tk. tk\<lparr>task_phase := Returned\<rparr>)
       (modify (task_state tk)
          (\<lambda>s. s\<lparr>data := Some v, fresh := True, error := None, pending := False\<rparr>) w)"
  by (simp add: executeFetch_resume_def)

lemma resume_rejected:
  "tasks w t = Some tk \<Longrightarrow> task_phase tk = Awaiting \<Longrightarrow> task_promise tk = Rejected err \<Longrightarrow>
   executeFetch_resume t w =
     task_update t (\<lambda>tk. tk\<lparr>task_phase := Returned\<rparr>)
       (modify (task_state tk) (\<lambda>s. s\<lparr>error := Some err, fresh := True, pending := False\<rparr>) w)"
  by (simp add: executeFetch_resume_def)

lemma resume_aborted:
  "tasks w t = Some tk \<Longrightarrow> task_promise tk = Resolved FETCH_TASK_ABORTED \<Longrightarrow>
   heap (executeFetch_resume t w) = heap w \<and> storage (executeFetch_resume t w) = storage w"
  by (simp add: executeFetch_resume_def)

section \<open>Cancellation and late results\<close>

lemma settle_heap [simp]:
  "heap (operation_resolves t v w) = heap w" "storage (operation_resolves t v w) = storage w"
  "heap (operation_rejects t err w) = heap w" "storage (operation_rejects t err w) = storage w"
  "heap (promise_resolve t x w) = heap w" "storage (promise_resolve t x w) = storage w"
  by (simp_all add: operation_resolves_def operation_rejects_def promise_resolve_def promise_reject_def)

lemma finally_heap [simp]:
  "heap (fetch_finally t w) = heap w" "storage (fetch_finally t w) = storage w"
  by (simp_all add: fetch_finally_def split: option.split)

lemma resume_storage [simp]: "storage (executeFetch_resume t w) = storage w"
  by (simp add: executeFetch_resume_def split: option.split promise.split fetch_result.split)

lemma resume_frame:
  "tasks w t = Some tk \<Longrightarrow> r \<noteq> task_state tk \<Longrightarrow> heap (executeFetch_resume t w) r = heap w r"
  by (simp add: executeFetch_resume_def split: promise.split fetch_result.split)

lemma abort_heap [simp]: "heap (abort t w) = heap w" "storage (abort t w) = storage w"
  by (simp_all add: abort_eq split: option.split)

lemma abortFetchTaskIfThereIsSome_heap [simp]:
  "heap (abortFetchTaskIfThereIsSome c w) = heap w"
  "storage (abortFetchTaskIfThereIsSome c w) = storage w"
  "next_tid (abortFetchTaskIfThereIsSome c w) = next_tid w"
  "next_ref (abortFetchTaskIfThereIsSome c w) = next_ref w"
  by (simp_all add: abortFetchTaskIfThereIsSome_def abort_eq promise_resolve_def split: option.split)

lemma abort_unsettled:
  "wf w \<Longrightarrow> tasks w t = Some tk \<Longrightarrow> task_promise tk = Unsettled \<Longrightarrow>
   tasks (abort t w) t = Some (tk\<lparr>task_promise := Resolved FETCH_TASK_ABORTED\<rparr>)"
  by (simp add: abort_eq wf_def promise_resolve_def)

lemma aborted_later: "later w w' \<Longrightarrow> aborted t w \<Longrightarrow> aborted t w'"
  unfolding later_def aborted_def
  by (cases "tasks w t") force+

lemma aborted_step_silent:
  assumes "aborted t w" and "ev \<in> set (task_steps t v err)"
  shows "heap (step ev w) = heap w \<and> storage (step ev w) = storage w"
proof -
  obtain tk where tk: "tasks w t = Some tk" "task_promise tk = Resolved FETCH_TASK_ABORTED"
    using assms(1) by (auto simp: aborted_def split: option.splits)
  from assms(2) consider "ev = OperationResolves t v" | "ev = OperationRejects t err"
    | "ev = Resume t" | "ev = Finally t"
    by (auto simp: task_steps_def)
  then show ?thesis
  proof cases
    case 3
    then show ?thesis using resume_aborted[OF tk] by simp
  qed simp_all
qed

lemma aborted_silent:
  assumes "wf w" and "aborted t w" and "ev \<in> set (task_steps t v err)"
  shows "heap (step ev (run evs w)) = heap (run evs w) \<and> storage (step ev (run evs w)) = storage (run evs w)"
  using aborted_step_silent[OF aborted_later[OF later_run[OF assms(1), of evs] assms(2)] assms(3)] .

lemma task_step_frame:
  assumes "tasks w t = Some tk" and "r \<noteq> task_state tk" and "ev \<in> set (task_steps t v err)"
  shows "heap (step ev w) r = heap w r"
proof -
  from assms(3) consider "ev = OperationResolves t v" | "ev = OperationRejects t err"
    | "ev = Resume t" | "ev = Finally t"
    by (auto simp: task_steps_def)
  then show ?thesis
  proof cases
    case 3
    then show ?thesis using resume_frame[OF assms(1,2)] by simp
  qed simp_all
qed

lemma later_task:
  "later w w' \<Longrightarrow> tasks w t = Some tk \<Longrightarrow>
   \<exists>tk'. tasks w' t = Some tk' \<and> task_state tk' = task_state tk"
  unfolding later_def by blast

lemma installs_state_value:
  "installs ev0 k w \<Longrightarrow> state_value (step ev0 w) k = Some (next_ref w)"
  by (cases ev0)
     (auto simp: reset_def run_microtask_def state_value_def store_get_def store_set_def Let_def
           split: list.splits)

text \<open>
  C2. Take a fetch task of an execution whose promise is not settled. The abort signal
  (\<^verbatim>\<open>abort()\<close> of \<^verbatim>\<open>initFetchAbort\<close>) settles the promise as aborted, whatever the hooks of
  the user do. From then on, however the execution goes on, nothing that happens to the
  task (its operation resolves or rejects, \<^verbatim>\<open>executeFetch\<close> resumes, \<^verbatim>\<open>.finally\<close>) changes
  any field of any state object or the store. The same holds after every event of the
  execution that leaves the task aborted (a watcher's job, an unmount).
\<close>

theorem cancelled_task_writes_nothing:
  assumes "tasks (run evs world0) t = Some tk" and "task_promise tk = Unsettled"
  shows "aborted t (abort t (run evs world0))
     \<and> (\<forall>evs' v err. \<forall>ev \<in> set (task_steps t v err).
           heap (step ev (run evs' (abort t (run evs world0))))
             = heap (run evs' (abort t (run evs world0)))
           \<and> storage (step ev (run evs' (abort t (run evs world0))))
             = storage (run evs' (abort t (run evs world0))))
     \<and> (\<forall>ev0 evs' v err. aborted t (step ev0 (run evs world0)) \<longrightarrow>
          (\<forall>ev \<in> set (task_steps t v err).
             heap (step ev (run evs' (step ev0 (run evs world0))))
               = heap (run evs' (step ev0 (run evs world0)))
             \<and> storage (step ev (run evs' (step ev0 (run evs world0))))
               = storage (run evs' (step ev0 (run evs world0)))))"
proof -
  let ?W = "run evs world0 :: ('a, 'b) world"
  have wf: "wf ?W" by (rule wf_reachable)
  have a: "aborted t (abort t ?W)"
    using abort_unsettled[OF wf assms] by (simp add: aborted_def)
  have wfa: "wf (abort t ?W)"
    using preservesD[OF preserves_abort[of t] wf] by simp
  have wfs: "wf (step ev0 ?W)" for ev0
    using preservesD[OF preserves_step[of ev0] wf] by simp
  show ?thesis
    using a aborted_silent[OF wfa a] aborted_silent[OF wfs] by blast
qed

theorem cancelled_task_writes_nothing_witness:
  "tasks (run example_in_flight world0) 0 =
     Some \<lparr>task_state = 0, task_owner = 0, task_promise = Unsettled, task_hooks = [ResolveAborted],
           task_phase = Awaiting,
           invoked_at = \<lparr>data = None, error = None, pending = True, fresh = False, owners = 1\<rparr>\<rparr>
   \<and> aborted 0 (abort 0 (run example_in_flight world0))
   \<and> heap (step (Resume 0) (run [OperationResolves 0 ''late''] (abort 0 (run example_in_flight world0))))
       = heap (run [OperationResolves 0 ''late''] (abort 0 (run example_in_flight world0)))
   \<and> aborted 0 (step (Unmount 0) (run example_in_flight world0))
   \<and> heap (step (Resume 0) (run [OperationRejects 0 ''E''] (step (Unmount 0) (run example_in_flight world0))))
       = heap (run [OperationRejects 0 ''E''] (step (Unmount 0) (run example_in_flight world0)))"
proof -
  let ?W = "run example_in_flight world0 :: (string, string) world"
  let ?tk = "\<lparr>task_state = 0, task_owner = 0, task_promise = Unsettled, task_hooks = [ResolveAborted],
           task_phase = Awaiting,
           invoked_at = \<lparr>data = None, error = None, pending = True, fresh = False, owners = 1\<rparr>\<rparr>
           :: (string, string) task"
  have t: "tasks ?W 0 = Some ?tk" by (simp add: model_defs)
  have u: "task_promise ?tk = Unsettled" by simp
  have m: "aborted 0 (step (Unmount 0) ?W)" by (simp add: model_defs aborted_def)
  have r: "Resume 0 \<in> set (task_steps 0 v err)" for v err :: string
    by (simp add: task_steps_def)
  note th = cancelled_task_writes_nothing[OF t u]
  from th have 1: "aborted 0 (abort 0 ?W)" by blast
  from th r have 2: "heap (step (Resume 0) (run [OperationResolves 0 ''late''] (abort 0 ?W)))
       = heap (run [OperationResolves 0 ''late''] (abort 0 ?W))" by blast
  from th r m have 3: "heap (step (Resume 0) (run [OperationRejects 0 ''E''] (step (Unmount 0) ?W)))
       = heap (run [OperationRejects 0 ''E''] (step (Unmount 0) ?W))" by blast
  show ?thesis using t 1 2 m 3 by blast
qed

text \<open>
  C1. Take a fetch task of an execution, in flight for a key or not, and an event that
  stores a new entry under the key \<open>k\<close> (a \<^verbatim>\<open>reset\<close>, also the one queued after the store
  was cleared, or a \<^verbatim>\<open>store.set\<close> with a new object). The store then holds the new object
  for \<open>k\<close>; it is not the state object of the task; and however the execution goes on,
  nothing that happens to the task (its late resolution or rejection, the resumption of
  \<^verbatim>\<open>executeFetch\<close>, \<^verbatim>\<open>.finally\<close>) changes any field of the new object. After a clear
  (\<^verbatim>\<open>store.storage.clear()\<close>, \<^verbatim>\<open>store.set(k, null)\<close>) the store holds no entry for \<open>k\<close>.
\<close>

theorem late_resolution_spares_new_entry:
  assumes "tasks (run evs world0) t = Some tk"
  shows "(\<forall>ev0. installs ev0 k (run evs world0) \<longrightarrow>
            state_value (step ev0 (run evs world0)) k = Some (next_ref (run evs world0))
            \<and> next_ref (run evs world0) \<noteq> task_state tk
            \<and> (\<forall>evs' v err. \<forall>ev \<in> set (task_steps t v err).
                  heap (step ev (run evs' (step ev0 (run evs world0)))) (next_ref (run evs world0))
                    = heap (run evs' (step ev0 (run evs world0))) (next_ref (run evs world0))))
       \<and> state_value (step StoreClear (run evs world0)) k = None
       \<and> state_value (step (StoreSetNull k) (run evs world0)) k = None"
proof (intro conjI allI impI ballI)
  let ?W = "run evs world0 :: ('a, 'b) world"
  have wf: "wf ?W" by (rule wf_reachable)
  show ne: "next_ref ?W \<noteq> task_state tk"
    using wf assms unfolding wf_def by fastforce
  show "state_value (step StoreClear ?W) k = None"
    by (simp add: state_value_def store_get_def)
  show "state_value (step (StoreSetNull k) ?W) k = None"
    by (simp add: state_value_def store_get_def store_set_def)
  fix ev0 assume "installs ev0 k ?W"
  then show "state_value (step ev0 ?W) k = Some (next_ref ?W)"
    by (rule installs_state_value)
  fix evs' :: "('a, 'b) event list" and v :: 'a and err :: 'b and ev :: "('a, 'b) event"
  assume ev: "ev \<in> set (task_steps t v err)"
  let ?W2 = "run evs' (step ev0 ?W)"
  have "later ?W (step ev0 ?W)"
    using preservesD[OF preserves_step[of ev0] wf] by simp
  moreover have "later (step ev0 ?W) ?W2"
    using later_run[of "step ev0 ?W" evs'] preservesD[OF preserves_step[of ev0] wf] by simp
  ultimately have "later ?W ?W2" by (rule later_trans)
  from later_task[OF this assms] obtain tk' where
    tk': "tasks ?W2 t = Some tk'" "task_state tk' = task_state tk" by blast
  show "heap (step ev ?W2) (next_ref ?W) = heap ?W2 (next_ref ?W)"
    using task_step_frame[OF tk'(1) _ ev] ne tk'(2) by simp
qed

theorem late_resolution_spares_new_entry_witness:
  "tasks (run example_cleared world0) 0 =
     Some \<lparr>task_state = 0, task_owner = 0, task_promise = Unsettled, task_hooks = [ResolveAborted],
           task_phase = Awaiting,
           invoked_at = \<lparr>data = None, error = None, pending = True, fresh = False, owners = 1\<rparr>\<rparr>
   \<and> installs Microtask example_key (run example_cleared world0)
   \<and> state_value (step Microtask (run example_cleared world0)) example_key = Some 1
   \<and> heap (step (Resume 0) (run [OperationResolves 0 ''one''] (step Microtask (run example_cleared world0)))) 1
       = heap (run [OperationResolves 0 ''one''] (step Microtask (run example_cleared world0))) 1
   \<and> heap (step (Resume 0) (run [OperationResolves 0 ''one''] (step Microtask (run example_cleared world0)))) 1
       = \<lparr>data = None, error = None, pending = False, fresh = False, owners = 0\<rparr>
   \<and> heap (step (Resume 0) (run [OperationResolves 0 ''one''] (step Microtask (run example_cleared world0)))) 0
       = \<lparr>data = Some ''one'', error = None, pending = False, fresh = True, owners = 1\<rparr>"
proof -
  let ?W = "run example_cleared world0 :: (string, string) world"
  let ?tk = "\<lparr>task_state = 0, task_owner = 0, task_promise = Unsettled, task_hooks = [ResolveAborted],
           task_phase = Awaiting,
           invoked_at = \<lparr>data = None, error = None, pending = True, fresh = False, owners = 1\<rparr>\<rparr>
           :: (string, string) task"
  have t: "tasks ?W 0 = Some ?tk" by (simp add: model_defs)
  have i: "installs Microtask example_key ?W" by (simp add: model_defs)
  have n: "next_ref ?W = 1" by (simp add: model_defs)
  have r: "Resume 0 \<in> set (task_steps 0 ''one'' ''E'')"
    by (simp add: task_steps_def)
  note th = late_resolution_spares_new_entry[OF t, of example_key]
  from th i have "state_value (step Microtask ?W) example_key = Some (next_ref ?W)" by blast
  then have 1: "state_value (step Microtask ?W) example_key = Some 1" by (simp only: n)
  from th i have "\<forall>evs' v err. \<forall>ev \<in> set (task_steps 0 v err).
        heap (step ev (run evs' (step Microtask ?W))) (next_ref ?W)
          = heap (run evs' (step Microtask ?W)) (next_ref ?W)" by blast
  from this[rule_format, OF r, of "[OperationResolves 0 ''one'']"]
  have 2: "heap (step (Resume 0) (run [OperationResolves 0 ''one''] (step Microtask ?W))) 1
       = heap (run [OperationResolves 0 ''one''] (step Microtask ?W)) 1" by (simp only: n)
  have 3: "heap (step (Resume 0) (run [OperationResolves 0 ''one''] (step Microtask ?W))) 1
       = \<lparr>data = None, error = None, pending = False, fresh = False, owners = 0\<rparr>"
    by (simp add: model_defs)
  have 4: "heap (step (Resume 0) (run [OperationResolves 0 ''one''] (step Microtask ?W))) 0
       = \<lparr>data = Some ''one'', error = None, pending = False, fresh = True, owners = 1\<rparr>"
    by (simp add: model_defs)
  show ?thesis using t i 1 2 3 4 by blast
qed

section \<open>The callback of the engine's watcher\<close>

lemma triggerExecuteFetch_iff:
  "triggerExecuteFetch k w \<longleftrightarrow>
     (\<exists>r. state_value w k = Some r \<and> \<not> pending (heap w r) \<and> \<not> fresh (heap w r))"
  by (auto simp: triggerExecuteFetch_def split: option.splits)

lemma abortFetchTaskIfThereIsSome_state_value [simp]:
  "state_value (abortFetchTaskIfThereIsSome c w) k = state_value w k"
  by (simp add: state_value_def)

lemma executeFetch_start_proj:
  "heap (executeFetch_start c r w) = (heap w)(r := (heap w r)\<lparr>pending := True\<rparr>)"
  "storage (executeFetch_start c r w) = storage w"
  "next_tid (executeFetch_start c r w) = Suc (next_tid w)"
  "next_ref (executeFetch_start c r w) = next_ref w"
  "consumers (executeFetch_start c r w) = consumers w"
  "tasks (executeFetch_start c r w) =
     (tasks w)(next_tid w \<mapsto>
        \<lparr>task_state = r, task_owner = c, task_promise = Unsettled, task_hooks = [ResolveAborted],
         task_phase = Awaiting, invoked_at = (heap w r)\<lparr>pending := True\<rparr>\<rparr>)"
  by (simp_all add: executeFetch_start_def onAbort_def Let_def fun_eq_iff)

lemma fetch_watch_trigger:
  assumes "triggerExecuteFetch k w" and "state_value w k = Some r"
  shows "fetch_watch c k w =
     local_vars c (\<lambda>l. l\<lparr>currentFetchTask := Some (next_tid w)\<rparr>)
       (executeFetch_start c r (abortFetchTaskIfThereIsSome c w))"
  using assms by (simp add: fetch_watch_def Let_def)

lemma fetch_watch_begins:
  assumes "triggerExecuteFetch k w" and "state_value w k = Some r"
  shows "tasks (fetch_watch c k w) (next_tid w) =
           Some \<lparr>task_state = r, task_owner = c, task_promise = Unsettled,
                 task_hooks = [ResolveAborted], task_phase = Awaiting,
                 invoked_at = (heap w r)\<lparr>pending := True\<rparr>\<rparr>"
    and "heap (fetch_watch c k w) = (heap w)(r := (heap w r)\<lparr>pending := True\<rparr>)"
    and "currentFetchTask (consumers (fetch_watch c k w) c) = Some (next_tid w)"
    and "next_tid (fetch_watch c k w) = Suc (next_tid w)"
    and "storage (fetch_watch c k w) = storage w"
  by (simp_all add: fetch_watch_trigger[OF assms] executeFetch_start_proj)

lemma fetch_watch_idle: "\<not> triggerExecuteFetch k w \<Longrightarrow> fetch_watch c k w = w"
  by (simp add: fetch_watch_def)

section \<open>Reset\<close>

lemma engine_dispose_proj [simp]:
  "heap (engine_dispose c w) = heap w"
  "committed (consumers (engine_dispose c w) c') = committed (consumers w c')"
  "keyed_scope (consumers (engine_dispose c w) c') = keyed_scope (consumers w c')"
  by (simp_all add: engine_dispose_def abortFetchTaskIfThereIsSome_def abort_eq promise_resolve_def
        split: option.split)

lemma ownership_dispose_consumers [simp]: "consumers (ownership_dispose c k w) = consumers w"
  by (simp add: ownership_dispose_def split: option.split)

lemma begun_on_later: "later w w' \<Longrightarrow> begun_on r c w \<Longrightarrow> begun_on r c w'"
  unfolding later_def begun_on_def by metis

lemma armed_ownership_job: "armed c k r w \<Longrightarrow> armed c k r (ownership_job c w)"
  by (auto simp: armed_def ownership_job_def ownership_run_def ownership_watch_def Let_def)

lemma armed_whenever_job: "armed c k r w \<Longrightarrow> armed c k r (whenever_job c w)"
  by (auto simp: armed_def whenever_job_def whenever_run_def whenever_no_state_def Let_def)

lemma armed_trigger: "armed c k r w \<Longrightarrow> triggerExecuteFetch k w"
  by (simp add: armed_def triggerExecuteFetch_def)

lemma begun_on_fetch_watch:
  assumes "triggerExecuteFetch k w" and "state_value w k = Some r"
  shows "begun_on r c (fetch_watch c k w)"
  unfolding begun_on_def using fetch_watch_begins(1)[OF assms, of c] by force

lemma begun_on_local_vars [simp]: "begun_on r c (local_vars c' f w) = begun_on r c w"
  by (simp add: begun_on_def)

lemma trigger_local_vars [simp]: "triggerExecuteFetch k (local_vars c f w) = triggerExecuteFetch k w"
  by (simp add: triggerExecuteFetch_def split: option.split)

lemma engine_dispose_full:
  "consumers (engine_dispose c w) =
     (consumers w)(c := (consumers w c)\<lparr>currentFetchTask := None, resource := None\<rparr>)"
  "storage (engine_dispose c w) = storage w"
  "state_value (engine_dispose c w) k = state_value w k"
  by (simp_all add: engine_dispose_def abortFetchTaskIfThereIsSome_def abort_eq promise_resolve_def
        state_value_def fun_eq_iff split: option.split)

lemma begun_on_fetch_run:
  assumes "triggerExecuteFetch k w" and "state_value w k = Some r"
  shows "begun_on r c (fetch_run c k w)"
  unfolding fetch_run_def Let_def
  by (rule begun_on_fetch_watch) (simp_all add: assms)

lemma armed_fetch_job:
  "armed c k r w \<Longrightarrow> begun_on r c (fetch_job c w) \<or> fetch_job c w = w"
  using begun_on_fetch_run[OF armed_trigger, of c k r w]
  by (auto simp: fetch_job_def Let_def armed_def)

lemma begun_on_engine_setup:
  assumes "triggerExecuteFetch k w" and "state_value w k = Some r"
  shows "begun_on r c (engine_setup c k w)"
  unfolding engine_setup_def
  using begun_on_fetch_run[of k "local_vars c (\<lambda>l. l\<lparr>currentFetchTask := None\<rparr>) w" r c] assms
  by simp

lemma confirmed_local_vars_other [simp]:
  "(\<And>l. committed (f l) = committed l) \<Longrightarrow> confirmed c k (local_vars c' f w) = confirmed c k w"
  by (simp add: confirmed_def split: option.split)

lemma armed_conditional_job:
  assumes "armed c k r w"
  shows "armed c k r (conditional_job c w) \<or> begun_on r c (conditional_job c w)"
proof (cases "confirmed c k w = confirmed_old (consumers w c)")
  case True
  then show ?thesis using assms by (simp add: conditional_job_def armed_def Let_def)
next
  case False
  have ks: "keyed_scope (consumers w c) = Some k" using assms by (simp add: armed_def)
  have sv: "state_value w k = Some r" using assms by (simp add: armed_def)
  have job: "conditional_job c w = conditional_run c k w"
    using False ks by (simp add: conditional_job_def Let_def)
  show ?thesis
  proof (cases "confirmed c k w")
    case True
    have "begun_on r c
            (engine_setup c k
               (local_vars c (\<lambda>l. l\<lparr>engine_scope := True\<rparr>)
                  (local_vars c (\<lambda>l. l\<lparr>confirmed_old := True\<rparr>) w)))"
      by (rule begun_on_engine_setup) (simp_all add: armed_trigger[OF assms] sv)
    then show ?thesis
      using True by (simp add: job conditional_run_def conditional_watch_def Let_def)
  next
    case c: False
    have "armed c k r (conditional_run c k w)"
      using assms c False
      by (auto simp: conditional_run_def conditional_watch_def Let_def armed_def engine_dispose_full)
    then show ?thesis by (simp add: job)
  qed
qed

lemma settled_armed:
  assumes "armed c k r w" and "settled c w"
  shows False
proof -
  let ?l = "consumers w c"
  have sv: "state_value w k = Some r" and ks: "keyed_scope ?l = Some k"
    and ec: "engine_scope ?l = confirmed_old ?l"
    and tr: "snd (trigger_old ?l) \<noteq> Some r"
    and ow: "if state_old ?l = Some r then owners (heap w r) = 1 \<and> committed ?l
             else owners (heap w r) = 0"
    using assms(1) by (simp_all add: armed_def)
  have s1: "state_value w k = state_old ?l" and s2: "confirmed c k w = confirmed_old ?l"
    and s3: "engine_scope ?l \<longrightarrow> (triggerExecuteFetch k w, state_value w k) = trigger_old ?l"
    using assms(2) ks by (auto simp: settled_def Let_def)
  from s1 sv ow have "owners (heap w r) = 1 \<and> committed ?l" by simp
  then have "confirmed c k w" using sv by (simp add: confirmed_def)
  then have "engine_scope ?l" using s2 ec by simp
  then have "snd (trigger_old ?l) = Some r" using s3 sv by (metis snd_conv)
  then show False using tr by simp
qed

lemma jobs_step:
  assumes "wf w" and "begun_on r c w \<or> armed c k r w" and "ev \<in> set (watcher_jobs c)"
  shows "wf (step ev w) \<and> (begun_on r c (step ev w) \<or> armed c k r (step ev w))"
proof -
  have p: "wf (step ev w)" "later w (step ev w)"
    using preservesD[OF preserves_step[of ev] assms(1)] by simp_all
  show ?thesis
  proof (cases "begun_on r c w")
    case True
    then show ?thesis using p begun_on_later by blast
  next
    case False
    then have a: "armed c k r w" using assms(2) by simp
    from assms(3) consider "ev = OwnershipJob c" | "ev = WheneverJob c" | "ev = ConditionalJob c"
      | "ev = FetchJob c"
      by (auto simp: watcher_jobs_def)
    then have "begun_on r c (step ev w) \<or> armed c k r (step ev w)"
    proof cases
      case 1
      then show ?thesis using armed_ownership_job[OF a] by simp
    next
      case 2
      then show ?thesis using armed_whenever_job[OF a] by simp
    next
      case 3
      then show ?thesis using armed_conditional_job[OF a] by auto
    next
      case 4
      then show ?thesis using armed_fetch_job[OF a] a by auto
    qed
    then show ?thesis using p by simp
  qed
qed

lemma jobs_run:
  "wf w \<Longrightarrow> begun_on r c w \<or> armed c k r w \<Longrightarrow> set js \<subseteq> set (watcher_jobs c) \<Longrightarrow>
   wf (run js w) \<and> (begun_on r c (run js w) \<or> armed c k r (run js w))"
proof (induction js arbitrary: w)
  case Nil
  then show ?case by simp
next
  case (Cons ev js)
  from jobs_step[OF Cons.prems(1,2), of ev] Cons.prems(3)
  have "wf (step ev w) \<and> (begun_on r c (step ev w) \<or> armed c k r (step ev w))" by simp
  with Cons.IH[of "step ev w"] Cons.prems(3) show ?case by simp
qed

lemma armed_reset:
  assumes "wf w" and "keyed_scope (consumers w c) = Some k" and "engine_scope (consumers w c)"
    and "confirmed c k w" and "settled c w"
  shows "armed c k (next_ref w) (reset k w)"
proof -
  have "state_old (consumers w c) \<noteq> Some (next_ref w)"
    using assms(1) unfolding wf_def by (metis less_irrefl)
  moreover have "snd (trigger_old (consumers w c)) \<noteq> Some (next_ref w)"
    using assms(1) unfolding wf_def by (metis less_irrefl)
  moreover have "confirmed_old (consumers w c)"
    using assms(2,4,5) by (simp add: settled_def Let_def)
  ultimately show ?thesis
    using assms(2,3)
    by (simp add: armed_def reset_def Let_def state_value_def store_get_def store_set_def
          initial_state_def)
qed

text \<open>
  C9. \<^verbatim>\<open>reset()\<close> stores under the key a new object with \<open>data = None\<close>, \<open>error = None\<close>,
  \<open>pending = False\<close>, \<open>fresh = False\<close>, \<open>owners = 0\<close> and changes no other object; the trigger
  of a fetch holds for it. If the consumer's engine is active (its scope exists, the
  consumer is confirmed, its watchers have nothing to do) when \<^verbatim>\<open>reset()\<close> is called, then
  in whatever order and however often the scheduler runs the jobs of the consumer's
  watchers: once they have nothing to do any more, a new fetch task of this consumer has
  been begun on the new object.
\<close>

theorem reset_retriggers_fetch:
  assumes "keyed_scope (consumers (run evs world0) c) = Some k"
    and "engine_scope (consumers (run evs world0) c)"
    and "confirmed c k (run evs world0)"
    and "settled c (run evs world0)"
  shows "state_value (reset k (run evs world0)) k = Some (next_ref (run evs world0))
     \<and> heap (reset k (run evs world0)) (next_ref (run evs world0)) =
         \<lparr>data = None, error = None, pending = False, fresh = False, owners = 0\<rparr>
     \<and> (\<forall>r. r \<noteq> next_ref (run evs world0) \<longrightarrow>
           heap (reset k (run evs world0)) r = heap (run evs world0) r)
     \<and> triggerExecuteFetch k (reset k (run evs world0))
     \<and> (\<forall>js. set js \<subseteq> set (watcher_jobs c) \<and> settled c (run js (reset k (run evs world0))) \<longrightarrow>
           (\<exists>t tk. tasks (run evs world0) t = None
                  \<and> tasks (run js (reset k (run evs world0))) t = Some tk
                  \<and> task_state tk = next_ref (run evs world0) \<and> task_owner tk = c))"
proof -
  let ?W = "run evs world0 :: ('a, 'b) world"
  let ?r = "next_ref ?W"
  have wf: "wf ?W" by (rule wf_reachable)
  have wfr: "wf (reset k ?W)" "later ?W (reset k ?W)"
    using preservesD[OF preserves_reset[of k] wf] by simp_all
  have a: "armed c k ?r (reset k ?W)"
    by (rule armed_reset[OF wf assms])
  have 1: "state_value (reset k ?W) k = Some ?r"
    using a by (simp add: armed_def)
  have 2: "heap (reset k ?W) ?r = \<lparr>data = None, error = None, pending = False, fresh = False, owners = 0\<rparr>"
    by (simp add: reset_def Let_def initial_state_def)
  have 3: "heap (reset k ?W) r = heap ?W r" if "r \<noteq> ?r" for r
    using that by (simp add: reset_def Let_def)
  have 4: "triggerExecuteFetch k (reset k ?W)"
    by (rule armed_trigger[OF a])
  have 5: "\<exists>t tk. tasks ?W t = None \<and> tasks (run js (reset k ?W)) t = Some tk
                  \<and> task_state tk = ?r \<and> task_owner tk = c"
    if js: "set js \<subseteq> set (watcher_jobs c)" and s: "settled c (run js (reset k ?W))" for js
  proof -
    from jobs_run[OF wfr(1) _ js, of ?r k] a
    have "begun_on ?r c (run js (reset k ?W)) \<or> armed c k ?r (run js (reset k ?W))" by simp
    with settled_armed[OF _ s] have "begun_on ?r c (run js (reset k ?W))" by blast
    then obtain t tk where t: "tasks (run js (reset k ?W)) t = Some tk" "task_state tk = ?r"
      "task_owner tk = c"
      by (auto simp: begun_on_def)
    have "tasks ?W t = None"
    proof (cases "tasks ?W t")
      case None
      then show ?thesis .
    next
      case (Some tk0)
      then have b: "task_state tk0 < ?r" using wf unfolding wf_def by blast
      have "later ?W (run js (reset k ?W))"
        using later_trans[OF wfr(2) later_run[OF wfr(1), of js]] .
      from later_task[OF this Some] t(1,2) b show ?thesis by auto
    qed
    with t show ?thesis by blast
  qed
  show ?thesis using 1 2 3 4 5 by blast
qed

theorem reset_retriggers_fetch_witness:
  "keyed_scope (consumers (run example_settled world0) 0) = Some example_key
   \<and> engine_scope (consumers (run example_settled world0) 0)
   \<and> confirmed 0 example_key (run example_settled world0)
   \<and> settled 0 (run example_settled world0)
   \<and> state_value (reset example_key (run example_settled world0)) example_key = Some 1
   \<and> heap (reset example_key (run example_settled world0)) 1 =
       \<lparr>data = None, error = None, pending = False, fresh = False, owners = 0\<rparr>
   \<and> triggerExecuteFetch example_key (reset example_key (run example_settled world0))
   \<and> set example_restart \<subseteq> set (watcher_jobs 0)
   \<and> settled 0 (run example_restart (reset example_key (run example_settled world0)))
   \<and> (\<exists>t tk. tasks (run example_settled world0) t = None
          \<and> tasks (run example_restart (reset example_key (run example_settled world0))) t = Some tk
          \<and> task_state tk = 1 \<and> task_owner tk = 0)
   \<and> tasks (run example_restart (reset example_key (run example_settled world0))) 1 =
       Some \<lparr>task_state = 1, task_owner = 0, task_promise = Unsettled,
             task_hooks = [ResolveAborted], task_phase = Awaiting,
             invoked_at = \<lparr>data = None, error = None, pending = True, fresh = False, owners = 1\<rparr>\<rparr>
   \<and> set [OwnershipJob 0, FetchJob 0, FetchJob 0] \<subseteq> set (watcher_jobs 0 :: (string, string) event list)
   \<and> settled 0 (run [OwnershipJob 0, FetchJob 0, FetchJob 0]
                   (reset example_key (run example_settled world0)))
   \<and> (\<exists>t tk. tasks (run example_settled world0) t = None
          \<and> tasks (run [OwnershipJob 0, FetchJob 0, FetchJob 0]
                     (reset example_key (run example_settled world0))) t = Some tk
          \<and> task_state tk = 1 \<and> task_owner tk = 0)"
proof -
  let ?W = "run example_settled world0 :: (string, string) world"
  let ?js = "[OwnershipJob 0, FetchJob 0, FetchJob 0] :: (string, string) event list"
  have k: "keyed_scope (consumers ?W 0) = Some example_key"
    by (simp add: model_defs)
  have e: "engine_scope (consumers ?W 0)" by (simp add: model_defs)
  have c: "confirmed 0 example_key ?W" by (simp add: model_defs)
  have s: "settled 0 ?W" by (simp add: model_defs settled_def)
  have n: "next_ref ?W = 1" by (simp add: model_defs)
  have j1: "set example_restart \<subseteq> set (watcher_jobs 0)"
    by (simp add: example_restart_def watcher_jobs_def)
  have j2: "set ?js \<subseteq> set (watcher_jobs 0)"
    by (simp add: watcher_jobs_def)
  have s1: "settled 0 (run example_restart (reset example_key ?W))"
    by (simp add: model_defs settled_def)
  have s2: "settled 0 (run ?js (reset example_key ?W))"
    by (simp add: model_defs settled_def)
  have t1: "tasks (run example_restart (reset example_key ?W)) 1 =
       Some \<lparr>task_state = 1, task_owner = 0, task_promise = Unsettled,
             task_hooks = [ResolveAborted], task_phase = Awaiting,
             invoked_at = \<lparr>data = None, error = None, pending = True, fresh = False, owners = 1\<rparr>\<rparr>"
    by (simp add: model_defs)
  note th = reset_retriggers_fetch[OF k e c s]
  from th have 1: "state_value (reset example_key ?W) example_key = Some (next_ref ?W)" by blast
  from th have 2: "heap (reset example_key ?W) (next_ref ?W) =
       \<lparr>data = None, error = None, pending = False, fresh = False, owners = 0\<rparr>" by blast
  from th have 3: "triggerExecuteFetch example_key (reset example_key ?W)" by blast
  from th j1 s1 have 4: "\<exists>t tk. tasks ?W t = None
          \<and> tasks (run example_restart (reset example_key ?W)) t = Some tk
          \<and> task_state tk = next_ref ?W \<and> task_owner tk = 0" by blast
  from th j2 s2 have 5: "\<exists>t tk. tasks ?W t = None
          \<and> tasks (run ?js (reset example_key ?W)) t = Some tk
          \<and> task_state tk = next_ref ?W \<and> task_owner tk = 0" by blast
  show ?thesis
    using k e c s 1[unfolded n] 2[unfolded n] 3 j1 s1 4[unfolded n] t1 j2 s2 5[unfolded n]
    by blast
qed

section \<open>The commit of a fetch task\<close>

lemma keeps_same:
  "(\<And>w. tasks (F w) = tasks w) \<Longrightarrow> (\<And>w. next_tid (F w) = next_tid w) \<Longrightarrow> keeps t F"
  by (simp add: keeps_def awaiting_def)

lemma keeps_id: "keeps t (\<lambda>w. w)"
  by (simp add: keeps_def)

lemma keeps_comp: "keeps t F \<Longrightarrow> keeps t G \<Longrightarrow> keeps t (\<lambda>w. G (F w))"
  by (simp add: keeps_def)

lemma keeps_if: "keeps t F \<Longrightarrow> keeps t G \<Longrightarrow> keeps t (\<lambda>w. if b w then F w else G w)"
  by (simp add: keeps_def)

lemma keeps_option:
  "keeps t F \<Longrightarrow> (\<And>x. keeps t (G x)) \<Longrightarrow>
   keeps t (\<lambda>w. case sel w of None \<Rightarrow> F w | Some x \<Rightarrow> G x w)"
  unfolding keeps_def by (simp split: option.split)

lemma keeps_guard:
  "(\<And>k. keeps t (F k)) \<Longrightarrow>
   keeps t (\<lambda>w. case sel w of None \<Rightarrow> w | Some k \<Rightarrow> if b k w then F k w else w)"
  unfolding keeps_def by (simp split: option.split)

lemma keeps_let: "(\<And>v. keeps t (F v)) \<Longrightarrow> keeps t (\<lambda>w. let v = e w in F v w)"
  by (simp add: keeps_def)

lemma keeps_task_update:
  "(\<And>tk. task_phase tk = Awaiting \<Longrightarrow> task_phase (f tk) = Awaiting) \<Longrightarrow> keeps t (task_update t' f)"
  by (auto simp: keeps_def awaiting_def)

lemma keeps_local_vars: "keeps t (local_vars c f)"
  by (rule keeps_same) simp_all

lemma keeps_modify: "keeps t (modify r f)"
  by (rule keeps_same) simp_all

lemma keeps_promise_resolve: "keeps t (promise_resolve t' x)"
  unfolding promise_resolve_def by (rule keeps_task_update) simp

lemma keeps_promise_reject: "keeps t (promise_reject t' x)"
  unfolding promise_reject_def by (rule keeps_task_update) simp

lemma keeps_onAbort: "keeps t (onAbort t' h)"
  unfolding onAbort_def by (rule keeps_task_update) simp

lemma keeps_abort: "keeps t (abort t')"
  unfolding abort_eq
  by (rule keeps_option[OF keeps_id keeps_if[OF keeps_promise_resolve keeps_id]])

lemma keeps_abortFetchTaskIfThereIsSome: "keeps t (abortFetchTaskIfThereIsSome c)"
proof -
  have 1: "keeps t (\<lambda>w. case currentFetchTask (consumers w c) of None \<Rightarrow> w | Some t' \<Rightarrow> abort t' w)"
    by (rule keeps_option[OF keeps_id keeps_abort])
  show ?thesis
    unfolding abortFetchTaskIfThereIsSome_def
    by (rule keeps_comp[OF 1 keeps_local_vars])
qed

lemma keeps_executeFetch_start: "keeps t (executeFetch_start c r)"
  unfolding keeps_def awaiting_def
  by (auto simp: executeFetch_start_proj)

lemma keeps_executeFetch_resume: "t' \<noteq> t \<Longrightarrow> keeps t (executeFetch_resume t')"
  unfolding keeps_def awaiting_def
  by (auto simp: executeFetch_resume_def split: option.split promise.split fetch_result.split)

lemma keeps_fetch_finally: "keeps t (fetch_finally t')"
  unfolding keeps_def awaiting_def
  by (auto simp: fetch_finally_def split: option.split)

lemma keeps_fetch_watch: "keeps t (fetch_watch c k)"
proof -
  have 1: "keeps t (\<lambda>w. local_vars c (\<lambda>l. l\<lparr>currentFetchTask := Some n\<rparr>) (executeFetch_start c r w))"
    for n r
    by (rule keeps_comp[OF keeps_executeFetch_start keeps_local_vars])
  have "awaiting t (fetch_watch c k w)" if a: "awaiting t w" for w :: "('a, 'b) world"
  proof -
    let ?w1 = "abortFetchTaskIfThereIsSome c w"
    have w1: "awaiting t ?w1"
      using keeps_abortFetchTaskIfThereIsSome[of t c] a unfolding keeps_def by blast
    show ?thesis
    proof (cases "triggerExecuteFetch k w")
      case False
      then show ?thesis using a by (simp add: fetch_watch_def)
    next
      case True
      show ?thesis
      proof (cases "state_value ?w1 k")
        case None
        then show ?thesis using True w1 by (simp add: fetch_watch_def)
      next
        case (Some r)
        have "awaiting t (local_vars c (\<lambda>l. l\<lparr>currentFetchTask := Some (next_tid ?w1)\<rparr>)
                (executeFetch_start c r ?w1))"
          using 1[of "next_tid ?w1" r] w1 unfolding keeps_def by blast
        then show ?thesis using True Some by (simp add: fetch_watch_def Let_def)
      qed
    qed
  qed
  then show ?thesis by (simp add: keeps_def)
qed

lemma keeps_fetch_run: "keeps t (fetch_run c k)"
  unfolding fetch_run_def
  by (rule keeps_let) (rule keeps_comp[OF keeps_local_vars keeps_fetch_watch])

lemma keeps_engine_setup: "keeps t (engine_setup c k)"
  unfolding engine_setup_def
  by (rule keeps_comp[OF keeps_comp[OF keeps_local_vars keeps_fetch_run] keeps_local_vars])

lemma keeps_engine_dispose: "keeps t (engine_dispose c)"
  unfolding engine_dispose_def
  by (rule keeps_comp[OF keeps_abortFetchTaskIfThereIsSome keeps_local_vars])

lemma keeps_conditional_watch: "keeps t (conditional_watch c k v)"
proof (cases v)
  case True
  have "keeps t (\<lambda>w. engine_setup c k (local_vars c (\<lambda>l. l\<lparr>engine_scope := True\<rparr>) w))"
    by (rule keeps_comp[OF keeps_local_vars keeps_engine_setup])
  then show ?thesis
    using True unfolding keeps_def by (simp add: conditional_watch_def)
next
  case False
  have 2: "keeps t (\<lambda>w. if engine_scope (consumers w c) then engine_dispose c w else w)"
    by (rule keeps_if[OF keeps_engine_dispose keeps_id])
  have "keeps t (\<lambda>w. local_vars c (\<lambda>l. l\<lparr>engine_scope := False\<rparr>)
             (if engine_scope (consumers w c) then engine_dispose c w else w))"
    by (rule keeps_comp[OF 2 keeps_local_vars])
  then show ?thesis
    using False unfolding keeps_def by (simp add: conditional_watch_def)
qed

lemma keeps_conditional_run: "keeps t (conditional_run c k)"
  unfolding conditional_run_def
  by (rule keeps_let) (rule keeps_comp[OF keeps_local_vars keeps_conditional_watch])

lemma keeps_ownership_run: "keeps t (ownership_run c k)"
  by (rule keeps_same) (simp_all add: ownership_run_def ownership_watch_def Let_def split: option.split)

lemma keeps_whenever_run: "keeps t (whenever_run c k)"
  by (rule keeps_same) (simp_all add: whenever_run_def whenever_no_state_def Let_def)

lemma keeps_ownership_dispose: "keeps t (ownership_dispose c k)"
  by (rule keeps_same) (simp_all add: ownership_dispose_def split: option.split)

lemma keeps_keyed_setup: "keeps t (keyed_setup c k)"
  unfolding keyed_setup_def Let_def
  by (rule keeps_comp[OF keeps_comp[OF keeps_comp[OF keeps_local_vars keeps_ownership_run]
        keeps_whenever_run] keeps_conditional_run])

lemma keeps_keyed_stop: "keeps t (keyed_stop c)"
proof -
  have 2: "keeps t (\<lambda>w. if engine_scope (consumers w c) then engine_dispose c w else w)"
    by (rule keeps_if[OF keeps_engine_dispose keeps_id])
  have 3: "keeps t (\<lambda>w. local_vars c (\<lambda>l. l\<lparr>keyed_scope := None, engine_scope := False\<rparr>)
            (if engine_scope (consumers (ownership_dispose c k w) c)
             then engine_dispose c (ownership_dispose c k w) else ownership_dispose c k w))" for k
    by (rule keeps_comp[OF keeps_comp[OF keeps_ownership_dispose 2] keeps_local_vars])
  show ?thesis
    unfolding keyed_stop_def Let_def
    by (rule keeps_option[OF keeps_id 3])
qed

lemma keeps_key_watch: "keeps t (key_watch c key)"
proof (cases key)
  case None
  then show ?thesis using keeps_keyed_stop[of t c]
    unfolding keeps_def by (simp add: key_watch_def)
next
  case (Some k)
  show ?thesis
  proof (cases "key_truthy k")
    case True
    then show ?thesis
      using Some keeps_comp[OF keeps_keyed_stop[of t c] keeps_keyed_setup[of t c k]]
      unfolding keeps_def by (simp add: key_watch_def)
  next
    case False
    then show ?thesis using Some keeps_keyed_stop[of t c]
      unfolding keeps_def by (simp add: key_watch_def)
  qed
qed

lemma keeps_key_run: "keeps t (key_run c)"
  unfolding key_run_def
  by (rule keeps_let) (rule keeps_comp[OF keeps_local_vars keeps_key_watch])

lemma keeps_reset: "keeps t (reset k)"
  by (rule keeps_same) (simp_all add: reset_def Let_def)

lemma keeps_step: "ev \<noteq> Resume t \<Longrightarrow> keeps t (step ev)"
proof (cases ev)
  case (UseSwr c key)
  have "keeps t (\<lambda>w. if alive (consumers w c) then w
          else key_run c (local_vars c (\<lambda>l. l\<lparr>alive := True, keyReactive := key,
                 keyed_scope := None, engine_scope := False\<rparr>) w))"
    by (rule keeps_if[OF keeps_id keeps_comp[OF keeps_local_vars keeps_key_run]])
  then show ?thesis using UseSwr by (simp add: keeps_def)
next
  case (SetKey c key)
  then show ?thesis using keeps_local_vars[of t c "\<lambda>l. l\<lparr>keyReactive := key\<rparr>"]
    by (simp add: keeps_def)
next
  case (Unmount c)
  have "keeps t (\<lambda>w. if alive (consumers w c)
          then local_vars c (\<lambda>l. l\<lparr>alive := False\<rparr>) (keyed_stop c w) else w)"
    by (rule keeps_if[OF keeps_comp[OF keeps_keyed_stop keeps_local_vars] keeps_id])
  then show ?thesis using Unmount by (simp add: keeps_def)
next
  case (CallMarkStale c)
  have "keeps t (markStale k)" for k
    by (rule keeps_same) (simp_all add: markStale_def split: option.split)
  then have "keeps t (\<lambda>w. case resource (consumers w c) of None \<Rightarrow> w
                           | Some k \<Rightarrow> markStale k w)"
    by (rule keeps_option[OF keeps_id])
  then show ?thesis using CallMarkStale by (simp add: keeps_def)
next
  case (CallReset k)
  then show ?thesis using keeps_reset[of t k] by (simp add: keeps_def)
next
  case (StoreSetNew k s)
  then show ?thesis by (simp add: keeps_def awaiting_def Let_def)
next
  case (StoreSetRef k r)
  then show ?thesis by (simp add: keeps_def awaiting_def)
next
  case (StoreSetNull k)
  then show ?thesis by (simp add: keeps_def awaiting_def)
next
  case StoreClear
  then show ?thesis by (simp add: keeps_def awaiting_def)
next
  case (Overwrite r s)
  then show ?thesis by (simp add: keeps_def awaiting_def)
next
  case (OperationResolves t' v)
  then show ?thesis using keeps_promise_resolve[of t t' "Fetched v"]
    by (simp add: keeps_def operation_resolves_def)
next
  case (OperationRejects t' err)
  then show ?thesis using keeps_promise_reject[of t t' err]
    by (simp add: keeps_def operation_rejects_def)
next
  case (OperationOnAbort t' throws)
  then show ?thesis using keeps_onAbort[of t t' "UserHook throws"] by (simp add: keeps_def)
next
  case (KeyJob c)
  have "keeps t (key_job c)"
    unfolding key_job_def Let_def by (rule keeps_if[OF keeps_key_run keeps_id])
  then show ?thesis using KeyJob by (simp add: keeps_def)
next
  case (OwnershipJob c)
  have "keeps t (ownership_job c)"
    unfolding ownership_job_def Let_def by (rule keeps_guard) (rule keeps_ownership_run)
  then show ?thesis using OwnershipJob by (simp add: keeps_def)
next
  case (WheneverJob c)
  have "keeps t (whenever_job c)"
    unfolding whenever_job_def Let_def by (rule keeps_guard) (rule keeps_whenever_run)
  then show ?thesis using WheneverJob by (simp add: keeps_def)
next
  case (ConditionalJob c)
  have "keeps t (conditional_job c)"
    unfolding conditional_job_def Let_def by (rule keeps_guard) (rule keeps_conditional_run)
  then show ?thesis using ConditionalJob by (simp add: keeps_def)
next
  case (FetchJob c)
  have "keeps t (fetch_job c)"
    unfolding fetch_job_def Let_def by (rule keeps_guard) (rule keeps_fetch_run)
  then show ?thesis using FetchJob by (simp add: keeps_def)
next
  case Microtask
  have "keeps t run_microtask"
    by (rule keeps_same) (simp_all add: run_microtask_def reset_def Let_def split: list.split)
  then show ?thesis using Microtask by (simp add: keeps_def)
next
  case (Resume t')
  assume "ev \<noteq> Resume t"
  then have "t' \<noteq> t" using Resume by simp
  then show ?thesis using keeps_executeFetch_resume[of t' t] Resume by (simp add: keeps_def)
next
  case (Finally t')
  then show ?thesis using keeps_fetch_finally[of t t'] by (simp add: keeps_def)
qed

lemma keeps_run: "Resume t \<notin> set evs \<Longrightarrow> keeps t (run evs)"
proof (induction evs)
  case Nil
  show ?case by (simp add: keeps_def)
next
  case (Cons ev evs)
  then have "keeps t (\<lambda>w. run evs (step ev w))"
    using keeps_comp[OF keeps_step[of ev t]] by auto
  then show ?case by (simp add: keeps_def)
qed

lemma wf_step: "wf w \<Longrightarrow> wf (step ev w)"
  using preservesD[OF preserves_step[of ev], of w] by simp

lemma awaiting_settled:
  assumes "wf w" and "tasks w t = Some tk" and "task_phase tk = Awaiting"
    and "task_promise tk \<noteq> Unsettled" and "Resume t \<notin> set evs"
  shows "\<exists>tk'. tasks (run evs w) t = Some tk' \<and> task_phase tk' = Awaiting
           \<and> task_promise tk' = task_promise tk \<and> task_state tk' = task_state tk"
proof -
  have "awaiting t w"
    using assms(1-3) unfolding awaiting_def wf_def by blast
  then have "awaiting t (run evs w)"
    using keeps_run[OF assms(5)] unfolding keeps_def by blast
  then obtain tk1 where 1: "tasks (run evs w) t = Some tk1" "task_phase tk1 = Awaiting"
    unfolding awaiting_def by blast
  from later_run[OF assms(1), of evs] assms(2,4) obtain tk2 where
    2: "tasks (run evs w) t = Some tk2" "task_state tk2 = task_state tk"
       "task_promise tk2 = task_promise tk"
    unfolding later_def by blast
  from 1 2 show ?thesis by simp
qed

text \<open>
  C6. Take a fetch task of an execution that is awaiting and whose promise is not settled
  (it is not cancelled). When its operation resolves with \<open>v\<close>, no state is written yet.
  Whatever happens then before \<^verbatim>\<open>executeFetch\<close> resumes (an abort included, which comes too
  late): the resumption writes \<open>data = Some v\<close>, \<open>fresh = True\<close>, \<open>error = None\<close>,
  \<open>pending = False\<close> into the state object the task was started with, and nothing else:
  the \<open>owners\<close> of that object and every other object are as before the resumption.
\<close>

theorem success_commit:
  assumes "tasks (run evs world0) t = Some tk" and "task_phase tk = Awaiting"
    and "task_promise tk = Unsettled" and "Resume t \<notin> set evs'"
  shows "heap (step (OperationResolves t v) (run evs world0)) = heap (run evs world0)
     \<and> heap (step (Resume t) (run evs' (step (OperationResolves t v) (run evs world0)))) =
         (heap (run evs' (step (OperationResolves t v) (run evs world0))))
           (task_state tk :=
              (heap (run evs' (step (OperationResolves t v) (run evs world0))) (task_state tk))
                \<lparr>data := Some v, fresh := True, error := None, pending := False\<rparr>)"
proof -
  let ?W = "run evs world0"
  let ?V = "step (OperationResolves t v) ?W"
  let ?W1 = "run evs' ?V"
  have wf: "wf ?W" by (rule wf_reachable)
  have wf0: "wf ?V" by (rule wf_step[OF wf])
  have t0: "tasks ?V t = Some (tk\<lparr>task_promise := Resolved (Fetched v)\<rparr>)"
    using assms(1,3) by (simp add: operation_resolves_def promise_resolve_def)
  from awaiting_settled[OF wf0 t0 _ _ assms(4)] assms(2)
  obtain tk1 where tk1: "tasks ?W1 t = Some tk1" "task_phase tk1 = Awaiting"
    "task_promise tk1 = Resolved (Fetched v)" "task_state tk1 = task_state tk"
    by auto
  have "heap (step (Resume t) ?W1) =
         (heap ?W1)(task_state tk :=
            (heap ?W1 (task_state tk))\<lparr>data := Some v, fresh := True, error := None, pending := False\<rparr>)"
    using resume_resolved[OF tk1(1,2,3)] tk1(4) by simp
  then show ?thesis by simp
qed

theorem success_commit_witness:
  "tasks (run example_in_flight world0) 0 =
     Some \<lparr>task_state = 0, task_owner = 0, task_promise = Unsettled, task_hooks = [ResolveAborted],
           task_phase = Awaiting,
           invoked_at = \<lparr>data = None, error = None, pending = True, fresh = False, owners = 1\<rparr>\<rparr>
   \<and> Resume 0 \<notin> set [FetchJob 0 :: (string, string) event]
   \<and> heap (run [FetchJob 0] (step (OperationResolves 0 ''v1'') (run example_in_flight world0))) 0 =
       \<lparr>data = None, error = None, pending = True, fresh = False, owners = 1\<rparr>
   \<and> heap (step (Resume 0)
             (run [FetchJob 0] (step (OperationResolves 0 ''v1'') (run example_in_flight world0)))) 0 =
       \<lparr>data = Some ''v1'', error = None, pending = False, fresh = True, owners = 1\<rparr>"
proof -
  let ?W = "run example_in_flight world0 :: (string, string) world"
  let ?W1 = "run [FetchJob 0] (step (OperationResolves 0 ''v1'') ?W)"
  let ?tk = "\<lparr>task_state = 0, task_owner = 0, task_promise = Unsettled, task_hooks = [ResolveAborted],
           task_phase = Awaiting,
           invoked_at = \<lparr>data = None, error = None, pending = True, fresh = False, owners = 1\<rparr>\<rparr>
           :: (string, string) task"
  have t: "tasks ?W 0 = Some ?tk" by (simp add: model_defs)
  have p: "task_phase ?tk = Awaiting" and u: "task_promise ?tk = Unsettled" by simp_all
  have n: "Resume 0 \<notin> set [FetchJob 0 :: (string, string) event]" by simp
  have h: "heap ?W1 0 = \<lparr>data = None, error = None, pending = True, fresh = False, owners = 1\<rparr>"
    by (simp add: model_defs)
  from success_commit[OF t p u n, of "''v1''"]
  have "heap (step (Resume 0) ?W1) =
         (heap ?W1)(task_state ?tk :=
            (heap ?W1 (task_state ?tk))\<lparr>data := Some ''v1'', fresh := True, error := None, pending := False\<rparr>)"
    by blast
  then have "heap (step (Resume 0) ?W1) 0 =
       \<lparr>data = Some ''v1'', error = None, pending = False, fresh = True, owners = 1\<rparr>"
    using h by simp
  then show ?thesis using t n h by blast
qed

text \<open>
  C7. Take a fetch task of an execution that is awaiting and whose promise is not settled
  (it is not cancelled). When its operation rejects with \<open>err\<close>, no state is written yet.
  Whatever happens then before \<^verbatim>\<open>executeFetch\<close> resumes: the resumption writes
  \<open>error = Some err\<close>, \<open>fresh = True\<close>, \<open>pending = False\<close> into the state object the task was
  started with, and nothing else: its \<open>data\<close> is what it was, so a failed refresh keeps the
  data fetched before.
\<close>

theorem failure_commit:
  assumes "tasks (run evs world0) t = Some tk" and "task_phase tk = Awaiting"
    and "task_promise tk = Unsettled" and "Resume t \<notin> set evs'"
  shows "heap (step (OperationRejects t err) (run evs world0)) = heap (run evs world0)
     \<and> heap (step (Resume t) (run evs' (step (OperationRejects t err) (run evs world0)))) =
         (heap (run evs' (step (OperationRejects t err) (run evs world0))))
           (task_state tk :=
              (heap (run evs' (step (OperationRejects t err) (run evs world0))) (task_state tk))
                \<lparr>error := Some err, fresh := True, pending := False\<rparr>)
     \<and> data (heap (step (Resume t) (run evs' (step (OperationRejects t err) (run evs world0))))
               (task_state tk)) =
         data (heap (run evs' (step (OperationRejects t err) (run evs world0))) (task_state tk))"
proof -
  let ?W = "run evs world0"
  let ?V = "step (OperationRejects t err) ?W"
  let ?W1 = "run evs' ?V"
  have wf: "wf ?W" by (rule wf_reachable)
  have wf0: "wf ?V" by (rule wf_step[OF wf])
  have t0: "tasks ?V t = Some (tk\<lparr>task_promise := Rejected err\<rparr>)"
    using assms(1,3) by (simp add: operation_rejects_def promise_reject_def)
  from awaiting_settled[OF wf0 t0 _ _ assms(4)] assms(2)
  obtain tk1 where tk1: "tasks ?W1 t = Some tk1" "task_phase tk1 = Awaiting"
    "task_promise tk1 = Rejected err" "task_state tk1 = task_state tk"
    by auto
  have "heap (step (Resume t) ?W1) =
         (heap ?W1)(task_state tk :=
            (heap ?W1 (task_state tk))\<lparr>error := Some err, fresh := True, pending := False\<rparr>)"
    using resume_rejected[OF tk1(1,2,3)] tk1(4) by simp
  then show ?thesis by simp
qed

theorem failure_commit_witness:
  "tasks (run example_refresh world0) 1 =
     Some \<lparr>task_state = 0, task_owner = 0, task_promise = Unsettled, task_hooks = [ResolveAborted],
           task_phase = Awaiting,
           invoked_at = \<lparr>data = Some ''v1'', error = None, pending = True, fresh = False, owners = 1\<rparr>\<rparr>
   \<and> Resume 1 \<notin> set [FetchJob 0 :: (string, string) event]
   \<and> heap (run [FetchJob 0] (step (OperationRejects 1 ''E'') (run example_refresh world0))) 0 =
       \<lparr>data = Some ''v1'', error = None, pending = True, fresh = False, owners = 1\<rparr>
   \<and> heap (step (Resume 1)
             (run [FetchJob 0] (step (OperationRejects 1 ''E'') (run example_refresh world0)))) 0 =
       \<lparr>data = Some ''v1'', error = Some ''E'', pending = False, fresh = True, owners = 1\<rparr>"
proof -
  let ?W = "run example_refresh world0 :: (string, string) world"
  let ?W1 = "run [FetchJob 0] (step (OperationRejects 1 ''E'') ?W)"
  let ?tk = "\<lparr>task_state = 0, task_owner = 0, task_promise = Unsettled, task_hooks = [ResolveAborted],
           task_phase = Awaiting,
           invoked_at = \<lparr>data = Some ''v1'', error = None, pending = True, fresh = False, owners = 1\<rparr>\<rparr>
           :: (string, string) task"
  have t: "tasks ?W 1 = Some ?tk" by (simp add: model_defs)
  have p: "task_phase ?tk = Awaiting" and u: "task_promise ?tk = Unsettled" by simp_all
  have n: "Resume 1 \<notin> set [FetchJob 0 :: (string, string) event]" by simp
  have h: "heap ?W1 0 = \<lparr>data = Some ''v1'', error = None, pending = True, fresh = False, owners = 1\<rparr>"
    by (simp add: model_defs)
  from failure_commit[OF t p u n, of "''E''"]
  have "heap (step (Resume 1) ?W1) =
         (heap ?W1)(task_state ?tk :=
            (heap ?W1 (task_state ?tk))\<lparr>error := Some ''E'', fresh := True, pending := False\<rparr>)"
    by blast
  then have "heap (step (Resume 1) ?W1) 0 =
       \<lparr>data = Some ''v1'', error = Some ''E'', pending = False, fresh = True, owners = 1\<rparr>"
    using h by simp
  then show ?thesis using t n h by blast
qed

section \<open>The fetch tasks an event begins\<close>

text \<open>
  The functions the watchers of a consumer are made of begin a fetch task in one place
  only, the callback of the engine's watcher, which tests the trigger first; so does
  every event, and every task of an execution was invoked with \<^verbatim>\<open>pending\<close> true.
\<close>

lemma begins_id: "begins c k (\<lambda>w. w)"
  by (auto simp: begins_def)

lemma begins_comp:
  assumes F: "begins c k F" and G: "begins c k G"
  shows "begins c k (\<lambda>w. G (F w))"
  unfolding begins_def
proof (intro allI impI)
  fix w :: "('a, 'b) world"
  assume cw: "counted w"
  from F cw have f1: "counted (F w)" and f2: "storage (F w) = storage w"
    and f3: "\<And>r. pending (heap w r) \<Longrightarrow> pending (heap (F w) r)"
    and f3': "\<And>r. fresh (heap (F w) r) = fresh (heap w r)"
    and f4: "\<And>t tk. tasks w t = Some tk \<Longrightarrow>
              \<exists>tk'. tasks (F w) t = Some tk' \<and> task_state tk' = task_state tk
                     \<and> task_owner tk' = task_owner tk \<and> invoked_at tk' = invoked_at tk"
    and f5: "\<And>t tk. tasks w t = None \<Longrightarrow> tasks (F w) t = Some tk \<Longrightarrow>
              task_owner tk = c \<and> state_value w k = Some (task_state tk)
              \<and> triggerExecuteFetch k w \<and> pending (invoked_at tk) \<and> \<not> fresh (invoked_at tk)"
    unfolding begins_def by blast+
  from G f1 have g1: "counted (G (F w))" and g2: "storage (G (F w)) = storage (F w)"
    and g3: "\<And>r. pending (heap (F w) r) \<Longrightarrow> pending (heap (G (F w)) r)"
    and g3': "\<And>r. fresh (heap (G (F w)) r) = fresh (heap (F w) r)"
    and g4: "\<And>t tk. tasks (F w) t = Some tk \<Longrightarrow>
              \<exists>tk'. tasks (G (F w)) t = Some tk' \<and> task_state tk' = task_state tk
                     \<and> task_owner tk' = task_owner tk \<and> invoked_at tk' = invoked_at tk"
    and g5: "\<And>t tk. tasks (F w) t = None \<Longrightarrow> tasks (G (F w)) t = Some tk \<Longrightarrow>
              task_owner tk = c \<and> state_value (F w) k = Some (task_state tk)
              \<and> triggerExecuteFetch k (F w) \<and> pending (invoked_at tk) \<and> \<not> fresh (invoked_at tk)"
    unfolding begins_def by blast+
  have sv: "state_value (F w) k = state_value w k"
    by (simp add: state_value_def f2)
  have tr: "triggerExecuteFetch k w" if "triggerExecuteFetch k (F w)"
  proof -
    from that obtain r where r: "state_value (F w) k = Some r" "\<not> pending (heap (F w) r)"
      "\<not> fresh (heap (F w) r)"
      by (auto simp: triggerExecuteFetch_iff)
    from r(2) f3 have "\<not> pending (heap w r)" by blast
    moreover from r(3) f3' have "\<not> fresh (heap w r)" by simp
    ultimately show ?thesis using r(1) sv by (auto simp: triggerExecuteFetch_iff)
  qed
  have 4: "\<exists>tk'. tasks (G (F w)) t = Some tk' \<and> task_state tk' = task_state tk
                  \<and> task_owner tk' = task_owner tk \<and> invoked_at tk' = invoked_at tk"
    if "tasks w t = Some tk" for t tk
  proof -
    from f4[OF that] obtain tk1 where 1: "tasks (F w) t = Some tk1" "task_state tk1 = task_state tk"
      "task_owner tk1 = task_owner tk" "invoked_at tk1 = invoked_at tk" by blast
    from g4[OF 1(1)] 1(2,3,4) show ?thesis by auto
  qed
  have 5: "task_owner tk = c \<and> state_value w k = Some (task_state tk)
              \<and> triggerExecuteFetch k w \<and> pending (invoked_at tk) \<and> \<not> fresh (invoked_at tk)"
    if n: "tasks w t = None" and s: "tasks (G (F w)) t = Some tk" for t tk
  proof (cases "tasks (F w) t")
    case None
    from g5[OF None s] sv tr show ?thesis by simp
  next
    case (Some tk1)
    from f5[OF n Some] g4[OF Some] s show ?thesis by auto
  qed
  show "counted (G (F w)) \<and> storage (G (F w)) = storage w
        \<and> (\<forall>r. (pending (heap w r) \<longrightarrow> pending (heap (G (F w)) r))
                \<and> fresh (heap (G (F w)) r) = fresh (heap w r))
        \<and> (\<forall>t tk. tasks w t = Some tk \<longrightarrow>
              (\<exists>tk'. tasks (G (F w)) t = Some tk' \<and> task_state tk' = task_state tk
                     \<and> task_owner tk' = task_owner tk \<and> invoked_at tk' = invoked_at tk))
        \<and> (\<forall>t tk. tasks w t = None \<and> tasks (G (F w)) t = Some tk \<longrightarrow>
              task_owner tk = c \<and> state_value w k = Some (task_state tk)
              \<and> triggerExecuteFetch k w \<and> pending (invoked_at tk) \<and> \<not> fresh (invoked_at tk))"
  proof (intro conjI allI impI)
    show "counted (G (F w))" by (rule g1)
    show "storage (G (F w)) = storage w" using g2 f2 by simp
    show "pending (heap (G (F w)) r)" if "pending (heap w r)" for r
      using g3[OF f3[OF that]] .
    show "fresh (heap (G (F w)) r) = fresh (heap w r)" for r
      using g3'[of r] f3'[of r] by simp
    show "\<exists>tk'. tasks (G (F w)) t = Some tk' \<and> task_state tk' = task_state tk
                  \<and> task_owner tk' = task_owner tk \<and> invoked_at tk' = invoked_at tk"
      if "tasks w t = Some tk" for t tk
      using 4[OF that] .
  next
    fix t tk
    assume a: "tasks w t = None \<and> tasks (G (F w)) t = Some tk"
    then have b: "task_owner tk = c \<and> state_value w k = Some (task_state tk)
              \<and> triggerExecuteFetch k w \<and> pending (invoked_at tk) \<and> \<not> fresh (invoked_at tk)"
      using 5[of t tk] by blast
    from b show "task_owner tk = c" by blast
    from b show "state_value w k = Some (task_state tk)" by blast
    from b show "triggerExecuteFetch k w" by blast
    from b show "pending (invoked_at tk)" by blast
    from b show "\<not> fresh (invoked_at tk)" by blast
  qed
qed

lemma begins_if: "begins c k F \<Longrightarrow> begins c k G \<Longrightarrow> begins c k (\<lambda>w. if b w then F w else G w)"
  by (simp add: begins_def)

lemma begins_option:
  "begins c k F \<Longrightarrow> (\<And>x. begins c k (G x)) \<Longrightarrow>
   begins c k (\<lambda>w. case sel w of None \<Rightarrow> F w | Some x \<Rightarrow> G x w)"
  unfolding begins_def by (simp split: option.split)

lemma begins_let: "(\<And>v. begins c k (F v)) \<Longrightarrow> begins c k (\<lambda>w. let v = e w in F v w)"
  by (simp add: begins_def)

lemma begins_same:
  assumes "\<And>w. tasks (F w) = tasks w" and "\<And>w. next_tid (F w) = next_tid w"
    and "\<And>w. storage (F w) = storage w"
    and "\<And>w r. pending (heap (F w) r) = pending (heap w r)"
    and "\<And>w r. fresh (heap (F w) r) = fresh (heap w r)"
  shows "begins c k F"
  by (auto simp: begins_def counted_def assms)

lemma begins_local_vars: "begins c k (local_vars c' f)"
  by (rule begins_same) simp_all

lemma begins_task_update:
  assumes "\<And>tk. task_state (f tk) = task_state tk" and "\<And>tk. task_owner (f tk) = task_owner tk"
    and "\<And>tk. invoked_at (f tk) = invoked_at tk"
  shows "begins c k (task_update t f)"
  by (auto simp: begins_def counted_def assms)

lemma begins_promise_resolve: "begins c k (promise_resolve t x)"
  unfolding promise_resolve_def by (rule begins_task_update) simp_all

lemma begins_abort: "begins c k (abort t)"
  unfolding abort_eq
  by (rule begins_option[OF begins_id begins_if[OF begins_promise_resolve begins_id]])

lemma begins_abortFetchTaskIfThereIsSome: "begins c k (abortFetchTaskIfThereIsSome c')"
proof -
  have 1: "begins c k (\<lambda>w. case currentFetchTask (consumers w c') of None \<Rightarrow> w | Some t \<Rightarrow> abort t w)"
    by (rule begins_option[OF begins_id begins_abort])
  show ?thesis
    unfolding abortFetchTaskIfThereIsSome_def
    by (rule begins_comp[OF 1 begins_local_vars])
qed

lemma begins_ownership_run: "begins c k (ownership_run c' k')"
  by (rule begins_same) (simp_all add: ownership_run_def ownership_watch_def Let_def split: option.split)

lemma begins_whenever_run: "begins c k (whenever_run c' k')"
  by (rule begins_same) (simp_all add: whenever_run_def whenever_no_state_def Let_def)

lemma begins_ownership_dispose: "begins c k (ownership_dispose c' k')"
  by (rule begins_same) (simp_all add: ownership_dispose_def split: option.split)

lemma begins_engine_dispose: "begins c k (engine_dispose c')"
  unfolding engine_dispose_def
  by (rule begins_comp[OF begins_abortFetchTaskIfThereIsSome begins_local_vars])

lemma begins_keyed_stop: "begins c k (keyed_stop c')"
proof -
  have 2: "begins c k (\<lambda>w. if engine_scope (consumers w c') then engine_dispose c' w else w)"
    by (rule begins_if[OF begins_engine_dispose begins_id])
  have 3: "begins c k (\<lambda>w. local_vars c' (\<lambda>l. l\<lparr>keyed_scope := None, engine_scope := False\<rparr>)
            (if engine_scope (consumers (ownership_dispose c' k' w) c')
             then engine_dispose c' (ownership_dispose c' k' w) else ownership_dispose c' k' w))" for k'
    by (rule begins_comp[OF begins_comp[OF begins_ownership_dispose 2] begins_local_vars])
  show ?thesis
    unfolding keyed_stop_def Let_def
    by (rule begins_option[OF begins_id 3])
qed

lemma beginsD:
  assumes "begins c k F" and "counted w"
  shows "counted (F w)" and "storage (F w) = storage w"
    and "\<And>r. pending (heap w r) \<Longrightarrow> pending (heap (F w) r)"
    and "\<And>r. fresh (heap (F w) r) = fresh (heap w r)"
    and "\<And>t tk. tasks w t = Some tk \<Longrightarrow>
              \<exists>tk'. tasks (F w) t = Some tk' \<and> task_state tk' = task_state tk
                     \<and> task_owner tk' = task_owner tk \<and> invoked_at tk' = invoked_at tk"
    and "\<And>t tk. tasks w t = None \<Longrightarrow> tasks (F w) t = Some tk \<Longrightarrow>
              task_owner tk = c \<and> state_value w k = Some (task_state tk)
              \<and> triggerExecuteFetch k w \<and> pending (invoked_at tk) \<and> \<not> fresh (invoked_at tk)"
  using assms unfolding begins_def by blast+

lemma beginsI:
  assumes "\<And>w. counted w \<Longrightarrow> counted (F w)"
    and "\<And>w. counted w \<Longrightarrow> storage (F w) = storage w"
    and "\<And>w r. counted w \<Longrightarrow> pending (heap w r) \<Longrightarrow> pending (heap (F w) r)"
    and "\<And>w r. counted w \<Longrightarrow> fresh (heap (F w) r) = fresh (heap w r)"
    and "\<And>w t tk. counted w \<Longrightarrow> tasks w t = Some tk \<Longrightarrow>
              \<exists>tk'. tasks (F w) t = Some tk' \<and> task_state tk' = task_state tk
                     \<and> task_owner tk' = task_owner tk \<and> invoked_at tk' = invoked_at tk"
    and "\<And>w t tk. counted w \<Longrightarrow> tasks w t = None \<Longrightarrow> tasks (F w) t = Some tk \<Longrightarrow>
              task_owner tk = c \<and> state_value w k = Some (task_state tk)
              \<and> triggerExecuteFetch k w \<and> pending (invoked_at tk) \<and> \<not> fresh (invoked_at tk)"
  shows "begins c k F"
  unfolding begins_def using assms by blast

lemma counted_new: "counted w \<Longrightarrow> tasks w (next_tid w) = None"
  unfolding counted_def by (cases "tasks w (next_tid w)") auto

lemma begins_fetch_watch: "begins c k (fetch_watch c k)"
proof (rule beginsI)
  fix w :: "('a, 'b) world"
  assume cw: "counted w"
  let ?w1 = "abortFetchTaskIfThereIsSome c w"
  let ?F = "fetch_watch c k w"
  note a = beginsD[OF begins_abortFetchTaskIfThereIsSome[of c k c] cw]
  have n1: "tasks ?w1 (next_tid w) = None"
    using counted_new[OF a(1)] by simp
  have same: "tasks ?w1 t = None" if "tasks w t = None" for t
    using that a(1) cw unfolding counted_def by (metis abortFetchTaskIfThereIsSome_heap(3))
  let ?r = "the (state_value w k)"
  have r: "state_value w k = Some ?r" "\<not> pending (heap w ?r)" "\<not> fresh (heap w ?r)"
    if "triggerExecuteFetch k w"
    using that by (auto simp: triggerExecuteFetch_iff)
  have eq: "?F = local_vars c (\<lambda>l. l\<lparr>currentFetchTask := Some (next_tid w)\<rparr>)
                     (executeFetch_start c ?r ?w1)"
    if "triggerExecuteFetch k w"
    by (rule fetch_watch_trigger[OF that r(1)[OF that]])
  have tk: "tasks ?F =
       (tasks ?w1)(next_tid w \<mapsto>
          \<lparr>task_state = ?r, task_owner = c, task_promise = Unsettled, task_hooks = [ResolveAborted],
           task_phase = Awaiting, invoked_at = (heap w ?r)\<lparr>pending := True\<rparr>\<rparr>)"
    and hp: "heap ?F = (heap w)(?r := (heap w ?r)\<lparr>pending := True\<rparr>)"
    and nt: "next_tid ?F = Suc (next_tid w)"
    and st: "storage ?F = storage w"
    if "triggerExecuteFetch k w"
    by (simp_all add: eq[OF that] executeFetch_start_proj)
  show "counted ?F"
  proof (cases "triggerExecuteFetch k w")
    case True
    show ?thesis using a(1) unfolding counted_def tk[OF True] nt[OF True]
      by (auto simp: less_Suc_eq)
  next
    case False
    then show ?thesis using cw by (simp add: fetch_watch_idle)
  qed
  show "storage ?F = storage w"
    using st by (cases "triggerExecuteFetch k w") (simp_all add: fetch_watch_idle)
  show "pending (heap ?F r)" if "pending (heap w r)" for r
    using that hp by (cases "triggerExecuteFetch k w") (simp_all add: fetch_watch_idle)
  show "fresh (heap ?F r) = fresh (heap w r)" for r
    using hp by (cases "triggerExecuteFetch k w") (simp_all add: fetch_watch_idle)
  show "\<exists>tk'. tasks ?F t = Some tk' \<and> task_state tk' = task_state tk
               \<and> task_owner tk' = task_owner tk \<and> invoked_at tk' = invoked_at tk"
    if t: "tasks w t = Some tk" for t tk
  proof (cases "triggerExecuteFetch k w")
    case True
    have "t \<noteq> next_tid w" using t counted_new[OF cw] by auto
    then show ?thesis using a(5)[OF t] by (simp add: tk[OF True])
  next
    case False
    then show ?thesis using t by (simp add: fetch_watch_idle)
  qed
  show "task_owner tk = c \<and> state_value w k = Some (task_state tk)
        \<and> triggerExecuteFetch k w \<and> pending (invoked_at tk) \<and> \<not> fresh (invoked_at tk)"
    if n: "tasks w t = None" and s: "tasks ?F t = Some tk" for t tk
  proof (cases "triggerExecuteFetch k w")
    case True
    from s same[OF n] have "t = next_tid w"
      by (auto simp: tk[OF True] split: if_splits)
    then have "tk = \<lparr>task_state = ?r, task_owner = c,
           task_promise = Unsettled, task_hooks = [ResolveAborted],
           task_phase = Awaiting, invoked_at = (heap w ?r)\<lparr>pending := True\<rparr>\<rparr>"
      using s tk[OF True] by auto
    then show ?thesis using True r[OF True] by auto
  next
    case False
    then show ?thesis using n s by (simp add: fetch_watch_idle)
  qed
qed

lemma begins_fetch_run: "begins c k (fetch_run c k)"
  unfolding fetch_run_def
  by (rule begins_let) (rule begins_comp[OF begins_local_vars begins_fetch_watch])

lemma begins_engine_setup: "begins c k (engine_setup c k)"
  unfolding engine_setup_def
  by (rule begins_comp[OF begins_comp[OF begins_local_vars begins_fetch_run] begins_local_vars])

lemma begins_conditional_watch: "begins c k (conditional_watch c k v)"
proof (cases v)
  case True
  have "begins c k (\<lambda>w. engine_setup c k (local_vars c (\<lambda>l. l\<lparr>engine_scope := True\<rparr>) w))"
    by (rule begins_comp[OF begins_local_vars begins_engine_setup])
  then show ?thesis
    using True unfolding begins_def by (simp add: conditional_watch_def)
next
  case False
  have 2: "begins c k (\<lambda>w. if engine_scope (consumers w c) then engine_dispose c w else w)"
    by (rule begins_if[OF begins_engine_dispose begins_id])
  have "begins c k (\<lambda>w. local_vars c (\<lambda>l. l\<lparr>engine_scope := False\<rparr>)
             (if engine_scope (consumers w c) then engine_dispose c w else w))"
    by (rule begins_comp[OF 2 begins_local_vars])
  then show ?thesis
    using False unfolding begins_def by (simp add: conditional_watch_def)
qed

lemma begins_conditional_run: "begins c k (conditional_run c k)"
  unfolding conditional_run_def
  by (rule begins_let) (rule begins_comp[OF begins_local_vars begins_conditional_watch])

lemma begins_keyed_setup: "begins c k (keyed_setup c k)"
  unfolding keyed_setup_def Let_def
  by (rule begins_comp[OF begins_comp[OF begins_comp[OF begins_local_vars begins_ownership_run]
        begins_whenever_run] begins_conditional_run])

lemma begins_key_watch_none: "begins c k (key_watch c' None)"
  using begins_keyed_stop[of c k c'] unfolding begins_def by (simp add: key_watch_def)

lemma begins_key_watch: "begins c k (key_watch c (Some k))"
proof (cases "key_truthy k")
  case True
  then show ?thesis
    using begins_comp[OF begins_keyed_stop[of c k c] begins_keyed_setup[of c k]]
    unfolding begins_def by (simp add: key_watch_def)
next
  case False
  then show ?thesis using begins_keyed_stop[of c k c]
    unfolding begins_def by (simp add: key_watch_def)
qed

lemma no_new:
  "counted w \<Longrightarrow> counted w' \<Longrightarrow> next_tid w' = next_tid w \<Longrightarrow> tasks w t = None \<Longrightarrow> tasks w' t = None"
  unfolding counted_def by (metis not_Some_eq)

lemma engine_fields_fetch_watch:
  "keyed_scope (consumers (fetch_watch c k w) c') = keyed_scope (consumers w c')"
  "engine_scope (consumers (fetch_watch c k w) c') = engine_scope (consumers w c')"
  by (simp_all add: fetch_watch_def Let_def executeFetch_start_proj abortFetchTaskIfThereIsSome_def
        abort_eq promise_resolve_def split: option.split)

lemma engine_fields_fetch_run:
  "keyed_scope (consumers (fetch_run c k w) c') = keyed_scope (consumers w c')"
  "engine_scope (consumers (fetch_run c k w) c') = engine_scope (consumers w c')"
  by (simp_all add: fetch_run_def Let_def engine_fields_fetch_watch)

lemma engine_fields_engine_setup:
  "keyed_scope (consumers (engine_setup c k w) c') = keyed_scope (consumers w c')"
  "engine_scope (consumers (engine_setup c k w) c') = engine_scope (consumers w c')"
  by (simp_all add: engine_setup_def engine_fields_fetch_run)

lemma next_tid_engine_dispose [simp]: "next_tid (engine_dispose c w) = next_tid w"
  by (simp add: engine_dispose_def)

lemma next_tid_keyed_stop [simp]: "next_tid (keyed_stop c w) = next_tid w"
  by (simp add: keyed_stop_def Let_def ownership_dispose_def split: option.split)

lemma conditional_run_engine:
  assumes "counted w" and "tasks w t = None" and "tasks (conditional_run c k w) t = Some tk"
  shows "engine_scope (consumers (conditional_run c k w) c)
     \<and> keyed_scope (consumers (conditional_run c k w) c) = keyed_scope (consumers w c)"
proof (cases "confirmed c k w")
  case True
  then show ?thesis
    by (simp add: conditional_run_def conditional_watch_def Let_def engine_fields_engine_setup)
next
  case False
  have n: "next_tid (conditional_run c k w) = next_tid w"
    using False by (simp add: conditional_run_def conditional_watch_def Let_def)
  have "tasks (conditional_run c k w) t = None"
    by (rule no_new[OF assms(1) beginsD(1)[OF begins_conditional_run assms(1)] n assms(2)])
  then show ?thesis using assms(3) by simp
qed

lemma keyed_setup_engine:
  assumes "counted w" and "tasks w t = None" and "tasks (keyed_setup c k w) t = Some tk"
  shows "engine_scope (consumers (keyed_setup c k w) c)
     \<and> keyed_scope (consumers (keyed_setup c k w) c) = Some k"
proof -
  let ?w3 = "whenever_run c k (ownership_run c k
               (local_vars c (\<lambda>l. l\<lparr>keyed_scope := Some k, committed := False,
                                    engine_scope := False\<rparr>) w))"
  have eq: "keyed_setup c k w = conditional_run c k ?w3"
    by (simp add: keyed_setup_def Let_def)
  have t3: "tasks ?w3 = tasks w" and n3: "next_tid ?w3 = next_tid w"
    and k3: "keyed_scope (consumers ?w3 c) = Some k"
    by (simp_all add: whenever_run_def whenever_no_state_def ownership_run_def ownership_watch_def
          Let_def split: option.split)
  have c3: "counted ?w3" using assms(1) by (simp add: counted_def t3 n3)
  from conditional_run_engine[OF c3, of t c k tk] assms(2,3)
  show ?thesis by (simp add: eq t3 k3)
qed

lemma key_run_engine:
  assumes "counted w" and "tasks w t = None" and "tasks (key_run c w) t = Some tk"
  shows "\<exists>k. engine_scope (consumers (key_run c w) c)
           \<and> keyed_scope (consumers (key_run c w) c) = Some k
           \<and> task_owner tk = c \<and> state_value w k = Some (task_state tk)
           \<and> triggerExecuteFetch k w \<and> pending (invoked_at tk) \<and> \<not> fresh (invoked_at tk)"
proof -
  let ?v = "keyReactive (consumers w c)"
  let ?w0 = "local_vars c (\<lambda>l. l\<lparr>key_old := ?v\<rparr>) w"
  have eq: "key_run c w = key_watch c ?v ?w0" by (simp add: key_run_def Let_def)
  have c0: "counted ?w0" using assms(1) by (simp add: counted_def)
  have t0: "tasks ?w0 t = None" using assms(2) by simp
  let ?w1 = "keyed_stop c ?w0"
  have c1: "counted ?w1" by (rule beginsD(1)[OF begins_keyed_stop[of c "KeySymbol 0" c] c0])
  have t1: "tasks ?w1 t = None"
    by (rule no_new[OF c0 c1 _ t0]) simp
  show ?thesis
  proof (cases ?v)
    case None
    then show ?thesis using assms(3) t1 by (simp add: eq key_watch_def)
  next
    case (Some k)
    show ?thesis
    proof (cases "key_truthy k")
      case False
      then show ?thesis using assms(3) t1 Some by (simp add: eq key_watch_def)
    next
      case True
      have eq2: "key_run c w = keyed_setup c k ?w1"
        using True Some by (simp add: eq key_watch_def)
      have s: "tasks (keyed_setup c k ?w1) t = Some tk" using assms(3) by (simp add: eq2)
      note e = keyed_setup_engine[OF c1 t1 s]
      have b: "begins c k (\<lambda>w. key_watch c (Some k) (local_vars c (\<lambda>l. l\<lparr>key_old := Some k\<rparr>) w))"
        by (rule begins_comp[OF begins_local_vars begins_key_watch])
      have "task_owner tk = c \<and> state_value w k = Some (task_state tk)
           \<and> triggerExecuteFetch k w \<and> pending (invoked_at tk) \<and> \<not> fresh (invoked_at tk)"
        using beginsD(6)[OF b assms(1,2), of tk] assms(3) Some by (simp add: eq)
      then show ?thesis using e by (auto simp: eq2)
    qed
  qed
qed

lemma key_run_tasks:
  assumes "counted (w :: ('a, 'b) world)"
  shows "counted (key_run c w)
     \<and> (\<forall>t tk. tasks w t = Some tk \<longrightarrow>
           (\<exists>tk'. tasks (key_run c w) t = Some tk' \<and> task_state tk' = task_state tk
                  \<and> task_owner tk' = task_owner tk \<and> invoked_at tk' = invoked_at tk))"
proof -
  let ?v = "keyReactive (consumers w c)"
  have "\<exists>k. begins c k (\<lambda>w :: ('a, 'b) world. key_watch c ?v (local_vars c (\<lambda>l. l\<lparr>key_old := ?v\<rparr>) w))"
  proof (cases ?v)
    case None
    have "begins c (KeySymbol 0) (\<lambda>w :: ('a, 'b) world. key_watch c None (local_vars c (\<lambda>l. l\<lparr>key_old := None\<rparr>) w))"
      by (rule begins_comp[OF begins_local_vars begins_key_watch_none])
    then show ?thesis using None by auto
  next
    case (Some k)
    have "begins c k (\<lambda>w :: ('a, 'b) world. key_watch c (Some k) (local_vars c (\<lambda>l. l\<lparr>key_old := Some k\<rparr>) w))"
      by (rule begins_comp[OF begins_local_vars begins_key_watch])
    then show ?thesis using Some by auto
  qed
  then obtain k where
    b: "begins c k (\<lambda>w :: ('a, 'b) world. key_watch c ?v (local_vars c (\<lambda>l. l\<lparr>key_old := ?v\<rparr>) w))" by blast
  have eq: "key_run c w = key_watch c ?v (local_vars c (\<lambda>l. l\<lparr>key_old := ?v\<rparr>) w)"
    by (simp add: key_run_def Let_def)
  show ?thesis
    using b assms unfolding begins_def eq by blast
qed

lemma begins_tasks:
  assumes "begins c k F" and "counted w"
  shows "counted (F w)
     \<and> (\<forall>t tk. tasks w t = Some tk \<longrightarrow>
           (\<exists>tk'. tasks (F w) t = Some tk' \<and> task_state tk' = task_state tk
                  \<and> task_owner tk' = task_owner tk \<and> invoked_at tk' = invoked_at tk))"
  using assms unfolding begins_def by blast

lemma same_tasks:
  assumes "counted w" and "tasks w' = tasks w" and "next_tid w' = next_tid w"
  shows "counted w'
     \<and> (\<forall>t tk. tasks w t = Some tk \<longrightarrow>
           (\<exists>tk'. tasks w' t = Some tk' \<and> task_state tk' = task_state tk
                  \<and> task_owner tk' = task_owner tk \<and> invoked_at tk' = invoked_at tk))"
  using assms by (simp add: counted_def)

lemma step_tasks:
  assumes "counted (w :: ('a, 'b) world)"
  shows "counted (step ev w)
     \<and> (\<forall>t tk. tasks w t = Some tk \<longrightarrow>
           (\<exists>tk'. tasks (step ev w) t = Some tk' \<and> task_state tk' = task_state tk
                  \<and> task_owner tk' = task_owner tk \<and> invoked_at tk' = invoked_at tk))"
proof (cases ev)
  case (UseSwr c key)
  let ?w0 = "local_vars c (\<lambda>l. l\<lparr>alive := True, keyReactive := key, keyed_scope := None,
                                  engine_scope := False\<rparr>) w"
  have c0: "counted ?w0" using assms by (simp add: counted_def)
  show ?thesis
    using key_run_tasks[OF c0, where c = c] assms UseSwr by simp
next
  case (SetKey c key)
  then show ?thesis using same_tasks[OF assms, of "step ev w"] by simp
next
  case (Unmount c)
  have "begins c (KeySymbol 0) (\<lambda>w :: ('a, 'b) world. local_vars c (\<lambda>l. l\<lparr>alive := False\<rparr>) (keyed_stop c w))"
    by (rule begins_comp[OF begins_keyed_stop begins_local_vars])
  from begins_tasks[OF this assms] show ?thesis using Unmount assms by simp
next
  case (CallMarkStale k)
  then show ?thesis using same_tasks[OF assms, of "step ev w"]
    by (simp add: markStale_def split: option.split)
next
  case (CallReset k)
  then show ?thesis using same_tasks[OF assms, of "step ev w"]
    by (simp add: reset_def Let_def)
next
  case (StoreSetNew k s)
  then show ?thesis using same_tasks[OF assms, of "step ev w"] by (simp add: Let_def)
next
  case (StoreSetRef k r)
  then show ?thesis using same_tasks[OF assms, of "step ev w"] by simp
next
  case (StoreSetNull k)
  then show ?thesis using same_tasks[OF assms, of "step ev w"] by simp
next
  case StoreClear
  then show ?thesis using same_tasks[OF assms, of "step ev w"] by simp
next
  case (Overwrite r s)
  then show ?thesis using same_tasks[OF assms, of "step ev w"] by simp
next
  case (OperationResolves t' v)
  from begins_tasks[OF begins_promise_resolve[of 0 "KeySymbol 0" t' "Fetched v"] assms]
  show ?thesis using OperationResolves by (simp add: operation_resolves_def)
next
  case (OperationRejects t' err)
  have "begins 0 (KeySymbol 0) (promise_reject t' err :: ('a, 'b) world \<Rightarrow> ('a, 'b) world)"
    unfolding promise_reject_def by (rule begins_task_update) simp_all
  from begins_tasks[OF this assms]
  show ?thesis using OperationRejects by (simp add: operation_rejects_def)
next
  case (OperationOnAbort t' throws)
  have "begins 0 (KeySymbol 0) (onAbort t' (UserHook throws) :: ('a, 'b) world \<Rightarrow> ('a, 'b) world)"
    unfolding onAbort_def by (rule begins_task_update) simp_all
  from begins_tasks[OF this assms]
  show ?thesis using OperationOnAbort by simp
next
  case (KeyJob c)
  then show ?thesis using key_run_tasks[OF assms, where c = c] assms
    by (simp add: key_job_def Let_def)
next
  case (OwnershipJob c)
  then show ?thesis using same_tasks[OF assms, of "step ev w"]
    by (simp add: ownership_job_def ownership_run_def ownership_watch_def Let_def split: option.split)
next
  case (WheneverJob c)
  then show ?thesis using same_tasks[OF assms, of "step ev w"]
    by (simp add: whenever_job_def whenever_run_def whenever_no_state_def Let_def split: option.split)
next
  case (ConditionalJob c)
  show ?thesis
    using begins_tasks[OF begins_conditional_run assms, of c] assms ConditionalJob
    by (simp add: conditional_job_def Let_def split: option.split)
next
  case (FetchJob c)
  show ?thesis
    using begins_tasks[OF begins_fetch_run assms, of c] assms FetchJob
    by (simp add: fetch_job_def Let_def split: option.split)
next
  case Microtask
  then show ?thesis using same_tasks[OF assms, of "step ev w"]
    by (simp add: run_microtask_def reset_def Let_def split: list.split)
next
  case (Resume t')
  then show ?thesis using assms
    by (auto simp: counted_def executeFetch_resume_def
          split: option.split promise.split fetch_result.split)
next
  case (Finally t')
  then show ?thesis using assms
    by (auto simp: counted_def fetch_finally_def split: option.split)
qed

lemma counted_run: "counted w \<Longrightarrow> counted (run evs w)"
proof (induction evs arbitrary: w)
  case Nil
  then show ?case by simp
next
  case (Cons ev evs)
  then show ?case using step_tasks[of w ev] by simp
qed

lemma counted_reachable: "counted (run evs world0)"
  by (rule counted_run) (simp add: counted_def world0_def)

lemma step_begins:
  assumes cw: "counted (w :: ('a, 'b) world)" and n: "tasks w t = None"
    and s: "tasks (step ev w) t = Some tk"
  shows "(\<exists>k. keyed_scope (consumers (step ev w) (task_owner tk)) = Some k
            \<and> engine_scope (consumers (step ev w) (task_owner tk))
            \<and> state_value w k = Some (task_state tk) \<and> triggerExecuteFetch k w)
     \<and> pending (invoked_at tk) \<and> \<not> fresh (invoked_at tk)
     \<and> (ev = FetchJob (task_owner tk) \<or> ev = ConditionalJob (task_owner tk)
          \<or> ev = KeyJob (task_owner tk) \<or> (\<exists>key. ev = UseSwr (task_owner tk) key))"
proof -
  have quiet: False if "next_tid (step ev w) = next_tid w"
    using no_new[OF cw conjunct1[OF step_tasks[OF cw, of ev]] that n] s by simp
  show ?thesis
  proof (cases ev)
    case (UseSwr c key)
    let ?w0 = "local_vars c (\<lambda>l. l\<lparr>alive := True, keyReactive := key, keyed_scope := None,
                                    engine_scope := False\<rparr>) w"
    have c0: "counted ?w0" using cw by (simp add: counted_def)
    have a: "\<not> alive (consumers w c)" using quiet UseSwr by auto
    then have eq: "step ev w = key_run c ?w0" using UseSwr by simp
    from key_run_engine[OF c0, of t c tk] n s[unfolded eq]
    have "\<exists>k. engine_scope (consumers (key_run c ?w0) c)
           \<and> keyed_scope (consumers (key_run c ?w0) c) = Some k
           \<and> task_owner tk = c \<and> state_value w k = Some (task_state tk)
           \<and> triggerExecuteFetch k w \<and> pending (invoked_at tk) \<and> \<not> fresh (invoked_at tk)"
      by simp
    then show ?thesis unfolding eq using UseSwr by auto
  next
    case (KeyJob c)
    have eq: "step ev w = key_run c w" using quiet KeyJob by (auto simp: key_job_def Let_def)
    from key_run_engine[OF cw n, of c tk] s[unfolded eq]
    show ?thesis unfolding eq using KeyJob by auto
  next
    case (ConditionalJob c)
    have "\<exists>k. keyed_scope (consumers w c) = Some k \<and> step ev w = conditional_run c k w"
    proof (cases "keyed_scope (consumers w c)")
      case None
      then have "step ev w = w" using ConditionalJob by (simp add: conditional_job_def Let_def)
      then show ?thesis using quiet by simp
    next
      case (Some k)
      show ?thesis
      proof (cases "confirmed c k w \<noteq> confirmed_old (consumers w c)")
        case True
        then show ?thesis using Some ConditionalJob by (simp add: conditional_job_def Let_def)
      next
        case False
        then have "step ev w = w" using Some ConditionalJob
          by (simp add: conditional_job_def Let_def)
        then show ?thesis using quiet by simp
      qed
    qed
    then obtain k where k: "keyed_scope (consumers w c) = Some k"
      and eq: "step ev w = conditional_run c k w" by blast
    from conditional_run_engine[OF cw n, of c k tk]
      beginsD(6)[OF begins_conditional_run cw n, of c k tk] s[unfolded eq]
    show ?thesis unfolding eq using ConditionalJob k by auto
  next
    case (FetchJob c)
    have "\<exists>k. keyed_scope (consumers w c) = Some k \<and> engine_scope (consumers w c)
            \<and> step ev w = fetch_run c k w"
    proof (cases "keyed_scope (consumers w c)")
      case None
      then have "step ev w = w" using FetchJob by (simp add: fetch_job_def Let_def)
      then show ?thesis using quiet by simp
    next
      case (Some k)
      show ?thesis
      proof (cases "engine_scope (consumers w c)
                    \<and> (triggerExecuteFetch k w, state_value w k) \<noteq> trigger_old (consumers w c)")
        case True
        then show ?thesis using Some FetchJob by (simp add: fetch_job_def Let_def)
      next
        case False
        then have "step ev w = w" using Some FetchJob
          by (auto simp: fetch_job_def Let_def)
        then show ?thesis using quiet by simp
      qed
    qed
    then obtain k where k: "keyed_scope (consumers w c) = Some k" and e: "engine_scope (consumers w c)"
      and eq: "step ev w = fetch_run c k w" by blast
    from beginsD(6)[OF begins_fetch_run cw n, of c k tk] s[unfolded eq]
    show ?thesis unfolding eq using FetchJob k e by (auto simp: engine_fields_fetch_run)
  next
    case (SetKey c key)
    then have "next_tid (step ev w) = next_tid w"
      by simp
    then show ?thesis using quiet by blast
  next
    case (Unmount c)
    then have "next_tid (step ev w) = next_tid w"
      by simp
    then show ?thesis using quiet by blast
  next
    case (CallMarkStale k)
    then have "next_tid (step ev w) = next_tid w"
      by (simp add: markStale_def split: option.split)
    then show ?thesis using quiet by blast
  next
    case (CallReset k)
    then have "next_tid (step ev w) = next_tid w"
      by (simp add: reset_def Let_def)
    then show ?thesis using quiet by blast
  next
    case (StoreSetNew k s)
    then have "next_tid (step ev w) = next_tid w"
      by (simp add: Let_def)
    then show ?thesis using quiet by blast
  next
    case (StoreSetRef k r)
    then have "next_tid (step ev w) = next_tid w"
      by simp
    then show ?thesis using quiet by blast
  next
    case (StoreSetNull k)
    then have "next_tid (step ev w) = next_tid w"
      by simp
    then show ?thesis using quiet by blast
  next
    case StoreClear
    then have "next_tid (step ev w) = next_tid w"
      by simp
    then show ?thesis using quiet by blast
  next
    case (Overwrite r s)
    then have "next_tid (step ev w) = next_tid w"
      by simp
    then show ?thesis using quiet by blast
  next
    case (OperationResolves t' v)
    then have "next_tid (step ev w) = next_tid w"
      by (simp add: operation_resolves_def promise_resolve_def)
    then show ?thesis using quiet by blast
  next
    case (OperationRejects t' err)
    then have "next_tid (step ev w) = next_tid w"
      by (simp add: operation_rejects_def promise_reject_def)
    then show ?thesis using quiet by blast
  next
    case (OperationOnAbort t' throws)
    then have "next_tid (step ev w) = next_tid w"
      by (simp add: onAbort_def)
    then show ?thesis using quiet by blast
  next
    case (OwnershipJob c)
    then have "next_tid (step ev w) = next_tid w"
      by (simp add: ownership_job_def ownership_run_def ownership_watch_def Let_def split: option.split)
    then show ?thesis using quiet by blast
  next
    case (WheneverJob c)
    then have "next_tid (step ev w) = next_tid w"
      by (simp add: whenever_job_def whenever_run_def whenever_no_state_def Let_def split: option.split)
    then show ?thesis using quiet by blast
  next
    case Microtask
    then have "next_tid (step ev w) = next_tid w"
      by (simp add: run_microtask_def reset_def Let_def split: list.split)
    then show ?thesis using quiet by blast
  next
    case (Resume t')
    then have "next_tid (step ev w) = next_tid w"
      by (simp add: executeFetch_resume_def split: option.split promise.split fetch_result.split)
    then show ?thesis using quiet by blast
  next
    case (Finally t')
    then have "next_tid (step ev w) = next_tid w"
      by (simp add: fetch_finally_def split: option.split)
    then show ?thesis using quiet by blast
  qed
qed

section \<open>A fetch that is due\<close>

text \<open>
  While a fetch is due, a job of a watcher of the consumer either does nothing or begins
  the fetch task; and the jobs of the watcher of \<^verbatim>\<open>useConditionalScope\<close> and of the engine's
  watcher, run in this order, leave nothing to do.
\<close>

lemma due_at_rest:
  assumes "at_rest c k r w" and "\<not> (confirmed c k w \<and> triggerExecuteFetch k w)"
    and "consumers w' c = consumers w c" and "state_value w' k = Some r"
    and "confirmed c k w'" and "triggerExecuteFetch k w'"
  shows "due c k r w'"
proof -
  let ?l = "consumers w c"
  have ks: "keyed_scope ?l = Some k" and sv: "state_value w k = Some r"
    and s: "settled c w" and e: "engine_scope ?l = confirmed c k w"
    using assms(1) by (simp_all add: at_rest_def)
  from s ks have s1: "state_value w k = state_old ?l"
    and s2: "(state_value w k = None) = no_state_old ?l"
    and s3: "confirmed c k w = confirmed_old ?l"
    and s4: "engine_scope ?l \<longrightarrow> (triggerExecuteFetch k w, state_value w k) = trigger_old ?l"
    by (auto simp: settled_def Let_def)
  have "trigger_old ?l \<noteq> (True, Some r)" if "engine_scope ?l"
  proof -
    from that e assms(2) have "\<not> triggerExecuteFetch k w" by simp
    with that s4 show ?thesis by (metis fst_conv)
  qed
  then show ?thesis
    using ks sv s1 s2 s3 e assms(3-6) by (simp add: due_def)
qed

lemma begun_since_later: "later w w' \<Longrightarrow> begun_since n r c w \<Longrightarrow> begun_since n r c w'"
  unfolding later_def begun_since_def by metis

lemma begun_since_fetch_run:
  assumes "triggerExecuteFetch k w" and "state_value w k = Some r"
  shows "begun_since (next_tid w) r c (fetch_run c k w)"
proof -
  let ?w0 = "local_vars c (\<lambda>l. l\<lparr>trigger_old := (triggerExecuteFetch k w, state_value w k)\<rparr>) w"
  have "tasks (fetch_watch c k ?w0) (next_tid ?w0) =
           Some \<lparr>task_state = r, task_owner = c, task_promise = Unsettled,
                 task_hooks = [ResolveAborted], task_phase = Awaiting,
                 invoked_at = (heap ?w0 r)\<lparr>pending := True\<rparr>\<rparr>"
    by (rule fetch_watch_begins(1)) (simp_all add: assms)
  then show ?thesis
    unfolding begun_since_def fetch_run_def Let_def by force
qed

lemma due_ownership_job: "due c k r w \<Longrightarrow> ownership_job c w = w"
  by (simp add: due_def ownership_job_def Let_def)

lemma due_whenever_job: "due c k r w \<Longrightarrow> whenever_job c w = w"
  by (simp add: due_def whenever_job_def Let_def)

lemma due_fetch_job:
  assumes "due c k r w"
  shows "fetch_job c w = w \<or> begun_since (next_tid w) r c (fetch_job c w)"
proof (cases "engine_scope (consumers w c)")
  case True
  then have "fetch_job c w = fetch_run c k w"
    using assms by (auto simp: due_def fetch_job_def Let_def)
  then show ?thesis using begun_since_fetch_run[of k w r c] assms by (simp add: due_def)
next
  case False
  then show ?thesis using assms by (simp add: due_def fetch_job_def Let_def)
qed

lemma due_conditional_job:
  assumes "due c k r w"
  shows "conditional_job c w = w \<or> begun_since (next_tid w) r c (conditional_job c w)"
proof (cases "confirmed_old (consumers w c)")
  case True
  then show ?thesis using assms by (simp add: due_def conditional_job_def Let_def)
next
  case False
  let ?w0 = "local_vars c (\<lambda>l. l\<lparr>currentFetchTask := None\<rparr>)
               (local_vars c (\<lambda>l. l\<lparr>engine_scope := True\<rparr>)
                  (local_vars c (\<lambda>l. l\<lparr>confirmed_old := True\<rparr>) w))"
  have eq: "conditional_job c w = local_vars c (\<lambda>l. l\<lparr>resource := Some k\<rparr>) (fetch_run c k ?w0)"
    using False assms
    by (simp add: due_def conditional_job_def conditional_run_def conditional_watch_def
          engine_setup_def Let_def)
  have "begun_since (next_tid ?w0) r c (fetch_run c k ?w0)"
    by (rule begun_since_fetch_run) (use assms in \<open>simp_all add: due_def\<close>)
  then show ?thesis by (simp add: eq begun_since_def)
qed

lemma due_job:
  assumes "due c k r w" and "ev \<in> set (watcher_jobs c)"
  shows "step ev w = w \<or> begun_since (next_tid w) r c (step ev w)"
proof -
  from assms(2) consider "ev = OwnershipJob c" | "ev = WheneverJob c" | "ev = ConditionalJob c"
    | "ev = FetchJob c"
    by (auto simp: watcher_jobs_def)
  then show ?thesis
  proof cases
    case 1
    then show ?thesis using due_ownership_job[OF assms(1)] by simp
  next
    case 2
    then show ?thesis using due_whenever_job[OF assms(1)] by simp
  next
    case 3
    then show ?thesis using due_conditional_job[OF assms(1)] by simp
  next
    case 4
    then show ?thesis using due_fetch_job[OF assms(1)] by simp
  qed
qed

lemma due_jobs_run:
  "wf w \<Longrightarrow> (due c k r w \<and> next_tid w = n) \<or> begun_since n r c w \<Longrightarrow>
   set js \<subseteq> set (watcher_jobs c) \<Longrightarrow>
   (due c k r (run js w) \<and> next_tid (run js w) = n) \<or> begun_since n r c (run js w)"
proof (induction js arbitrary: w)
  case Nil
  then show ?case by simp
next
  case (Cons ev js)
  have p: "wf (step ev w)" "later w (step ev w)"
    using preservesD[OF preserves_step[of ev] Cons.prems(1)] by simp_all
  have ev: "ev \<in> set (watcher_jobs c)" and js: "set js \<subseteq> set (watcher_jobs c)"
    using Cons.prems(3) by simp_all
  have "(due c k r (step ev w) \<and> next_tid (step ev w) = n) \<or> begun_since n r c (step ev w)"
  proof (cases "begun_since n r c w")
    case True
    then show ?thesis using begun_since_later[OF p(2)] by blast
  next
    case False
    then have d: "due c k r w" "next_tid w = n" using Cons.prems(2) by simp_all
    from due_job[OF d(1) ev] show ?thesis using d by auto
  qed
  from Cons.IH[OF p(1) this js] show ?case by simp
qed

lemma settled_due:
  assumes "due c k r w" and "settled c w"
  shows False
proof -
  let ?l = "consumers w c"
  from assms(1) have ks: "keyed_scope ?l = Some k" and sv: "state_value w k = Some r"
    and c: "confirmed c k w" and t: "triggerExecuteFetch k w"
    and e: "engine_scope ?l = confirmed_old ?l"
    and n: "engine_scope ?l \<longrightarrow> trigger_old ?l \<noteq> (True, Some r)"
    by (simp_all add: due_def)
  from assms(2) ks have s3: "confirmed c k w = confirmed_old ?l"
    and s4: "engine_scope ?l \<longrightarrow> (triggerExecuteFetch k w, state_value w k) = trigger_old ?l"
    by (auto simp: settled_def Let_def)
  from c s3 e have "engine_scope ?l" by simp
  with s4 n t sv show False by simp
qed

lemma fetch_run_fields:
  "state_old (consumers (fetch_run c k w) c') = state_old (consumers w c')"
  "no_state_old (consumers (fetch_run c k w) c') = no_state_old (consumers w c')"
  "confirmed_old (consumers (fetch_run c k w) c') = confirmed_old (consumers w c')"
  "committed (consumers (fetch_run c k w) c') = committed (consumers w c')"
  "trigger_old (consumers (fetch_run c k w) c) = (triggerExecuteFetch k w, state_value w k)"
  "storage (fetch_run c k w) = storage w"
  by (simp_all add: fetch_run_def fetch_watch_def Let_def executeFetch_start_proj
        abortFetchTaskIfThereIsSome_def abort_eq promise_resolve_def split: option.split)

lemma fetch_run_heap:
  assumes "triggerExecuteFetch k w" and "state_value w k = Some r"
  shows "heap (fetch_run c k w) = (heap w)(r := (heap w r)\<lparr>pending := True\<rparr>)"
proof -
  let ?w0 = "local_vars c (\<lambda>l. l\<lparr>trigger_old := (triggerExecuteFetch k w, state_value w k)\<rparr>) w"
  have "heap (fetch_watch c k ?w0) = (heap ?w0)(r := (heap ?w0 r)\<lparr>pending := True\<rparr>)"
    by (rule fetch_watch_begins(2)) (simp_all add: assms)
  then show ?thesis by (simp add: fetch_run_def Let_def)
qed

lemma started_fetch_run:
  assumes "state_value w k = Some r" and "keyed_scope (consumers w c) = Some k"
    and "state_old (consumers w c) = Some r" and "\<not> no_state_old (consumers w c)"
    and "engine_scope (consumers w c)" and "confirmed_old (consumers w c)"
    and "confirmed c k w" and "triggerExecuteFetch k w"
  shows "started c k r (fetch_run c k w)"
proof -
  have "confirmed c k (fetch_run c k w)"
    using assms(1,7)
    by (simp add: confirmed_def state_value_def fetch_run_fields fetch_run_heap[OF assms(8,1)])
  then show ?thesis
    using assms
    by (simp add: started_def state_value_def fetch_run_fields engine_fields_fetch_run
          fetch_run_heap[OF assms(8,1)])
qed

lemma due_started_fetch_job:
  assumes "due c k r w" and "engine_scope (consumers w c)"
  shows "started c k r (fetch_job c w)"
proof -
  have "fetch_job c w = fetch_run c k w"
    using assms by (auto simp: due_def fetch_job_def Let_def)
  moreover have "started c k r (fetch_run c k w)"
    by (rule started_fetch_run) (use assms in \<open>simp_all add: due_def\<close>)
  ultimately show ?thesis by simp
qed

lemma started_local_vars:
  assumes "started c k r w" and "\<And>l. keyed_scope (f l) = keyed_scope l"
    and "\<And>l. state_old (f l) = state_old l" and "\<And>l. no_state_old (f l) = no_state_old l"
    and "\<And>l. engine_scope (f l) = engine_scope l" and "\<And>l. confirmed_old (f l) = confirmed_old l"
    and "\<And>l. committed (f l) = committed l" and "\<And>l. trigger_old (f l) = trigger_old l"
  shows "started c k r (local_vars c f w)"
  using assms by (simp add: started_def)

lemma due_started_conditional_job:
  assumes "due c k r w" and "\<not> engine_scope (consumers w c)"
  shows "started c k r (conditional_job c w)"
proof -
  let ?w0 = "local_vars c (\<lambda>l. l\<lparr>currentFetchTask := None\<rparr>)
               (local_vars c (\<lambda>l. l\<lparr>engine_scope := True\<rparr>)
                  (local_vars c (\<lambda>l. l\<lparr>confirmed_old := True\<rparr>) w))"
  have eq: "conditional_job c w = local_vars c (\<lambda>l. l\<lparr>resource := Some k\<rparr>) (fetch_run c k ?w0)"
    using assms
    by (simp add: due_def conditional_job_def conditional_run_def conditional_watch_def
          engine_setup_def Let_def)
  have "started c k r (fetch_run c k ?w0)"
    by (rule started_fetch_run) (use assms in \<open>simp_all add: due_def\<close>)
  then show ?thesis unfolding eq by (rule started_local_vars) simp_all
qed

lemma started_settles:
  assumes "started c k r w"
  shows "settled c (fetch_job c w)"
proof -
  have nt: "\<not> triggerExecuteFetch k w"
    using assms by (simp add: started_def triggerExecuteFetch_def)
  have "fetch_job c w = fetch_run c k w"
    using assms nt by (simp add: started_def fetch_job_def Let_def)
  also have "\<dots> = local_vars c (\<lambda>l. l\<lparr>trigger_old := (False, Some r)\<rparr>) w"
    using assms nt by (simp add: started_def fetch_run_def fetch_watch_def Let_def)
  finally show ?thesis
    using assms nt by (simp add: started_def settled_def Let_def)
qed

lemma settled_fetch_job: "settled c w \<Longrightarrow> fetch_job c w = w"
  by (auto simp: settled_def fetch_job_def Let_def split: option.split)

lemma due_settles:
  assumes "due c k r w"
  shows "settled c (run [ConditionalJob c, FetchJob c, FetchJob c] w)"
proof (cases "engine_scope (consumers w c)")
  case True
  then have "conditional_job c w = w"
    using assms by (simp add: due_def conditional_job_def Let_def)
  then show ?thesis
    using started_settles[OF due_started_fetch_job[OF assms True]] by simp
next
  case False
  have s: "settled c (fetch_job c (conditional_job c w))"
    by (rule started_settles[OF due_started_conditional_job[OF assms False]])
  then show ?thesis using settled_fetch_job[OF s] by simp
qed

lemma invoked_pending_step:
  assumes "invoked_pending w"
  shows "invoked_pending (step ev w)"
proof -
  have cw: "counted w" using assms by (simp add: invoked_pending_def)
  note st = step_tasks[OF cw, of ev]
  have "pending (invoked_at tk) \<and> \<not> fresh (invoked_at tk)"
    if s: "tasks (step ev w) t = Some tk" for t tk
  proof (cases "tasks w t")
    case None
    from step_begins[OF cw None s] show ?thesis by blast
  next
    case (Some tk0)
    with st s have "invoked_at tk = invoked_at tk0" by (metis option.inject)
    then show ?thesis using assms Some by (simp add: invoked_pending_def)
  qed
  then show ?thesis using st by (simp add: invoked_pending_def)
qed

lemma invoked_pending_run: "invoked_pending w \<Longrightarrow> invoked_pending (run evs w)"
proof (induction evs arbitrary: w)
  case Nil
  then show ?case by simp
next
  case (Cons ev evs)
  then show ?case using invoked_pending_step[of w ev] by simp
qed

lemma invoked_pending_reachable: "invoked_pending (run evs world0)"
  by (rule invoked_pending_run) (simp add: invoked_pending_def counted_def world0_def)

lemma due_begins:
  assumes wf: "wf w" and i: "invoked_pending w" and d: "due c k r w"
  shows "settled c (run [ConditionalJob c, FetchJob c, FetchJob c] w)
     \<and> (\<forall>js. set js \<subseteq> set (watcher_jobs c) \<and> settled c (run js w) \<longrightarrow>
           (\<exists>t tk. tasks w t = None \<and> tasks (run js w) t = Some tk
                  \<and> task_state tk = r \<and> task_owner tk = c \<and> pending (invoked_at tk)))"
proof (intro conjI allI impI)
  show "settled c (run [ConditionalJob c, FetchJob c, FetchJob c] w)"
    by (rule due_settles[OF d])
  fix js
  assume j: "set js \<subseteq> set (watcher_jobs c) \<and> settled c (run js w)"
  from due_jobs_run[OF wf _ conjunct1[OF j], where k = k and r = r and n = "next_tid w"] d
  have "(due c k r (run js w) \<and> next_tid (run js w) = next_tid w)
        \<or> begun_since (next_tid w) r c (run js w)"
    by simp
  with settled_due[OF _ conjunct2[OF j]] have "begun_since (next_tid w) r c (run js w)"
    by blast
  then obtain t tk where t: "next_tid w \<le> t" "tasks (run js w) t = Some tk"
    "task_state tk = r" "task_owner tk = c"
    by (auto simp: begun_since_def)
  have "counted w" using i by (simp add: invoked_pending_def)
  then have "tasks w t = None" using t(1) unfolding counted_def
    by (metis not_less)
  moreover have "pending (invoked_at tk)"
    using invoked_pending_run[OF i, of js] t(2) by (simp add: invoked_pending_def)
  ultimately show "\<exists>t tk. tasks w t = None \<and> tasks (run js w) t = Some tk
                      \<and> task_state tk = r \<and> task_owner tk = c \<and> pending (invoked_at tk)"
    using t by blast
qed

text \<open>
  C5. In every execution, a fetch task is begun only by a watcher of its consumer (the
  watcher of the engine, or a watcher that sets the engine up, which runs the engine's
  watcher at once), with that consumer's engine active, on the entry the store holds for
  the key of the consumer's scope, and only when \<^verbatim>\<open>pending\<close> and \<^verbatim>\<open>fresh\<close> of that entry are
  both false; \<^verbatim>\<open>pending\<close> is true in the entry as the operation finds it when \<^verbatim>\<open>fetch.fn\<close> is
  called.

  Conversely, when a fetch is due for a consumer (it is confirmed and the trigger holds,
  its ownership watcher and its \<^verbatim>\<open>whenever\<close> have seen the entry, and the watcher of its
  engine, if the engine is active, has not seen the trigger), the scheduler can run the
  consumer's watchers until they have nothing to do; and in whatever order and however
  often it runs them, once they have nothing to do a new fetch task of this consumer has
  been begun on the entry, with \<^verbatim>\<open>pending\<close> true when the operation is invoked. A fetch is
  due, in particular, after an event that leaves the variables of a consumer at rest and
  the entry in place, and after which the consumer is confirmed and the trigger holds,
  which was not so before (the entry has been marked stale, say, or another owner has
  gone).
\<close>

theorem fetch_begun_exactly_on_trigger:
  "(\<forall>t tk. tasks (run evs world0) t = None \<and> tasks (step ev (run evs world0)) t = Some tk \<longrightarrow>
       (\<exists>k. keyed_scope (consumers (step ev (run evs world0)) (task_owner tk)) = Some k
            \<and> engine_scope (consumers (step ev (run evs world0)) (task_owner tk))
            \<and> state_value (run evs world0) k = Some (task_state tk))
       \<and> \<not> pending (heap (run evs world0) (task_state tk))
       \<and> \<not> fresh (heap (run evs world0) (task_state tk))
       \<and> pending (invoked_at tk)
       \<and> (ev = FetchJob (task_owner tk) \<or> ev = ConditionalJob (task_owner tk)
            \<or> ev = KeyJob (task_owner tk) \<or> (\<exists>key. ev = UseSwr (task_owner tk) key)))
   \<and> (due c k r (run evs world0) \<longrightarrow>
         settled c (run [ConditionalJob c, FetchJob c, FetchJob c] (run evs world0))
         \<and> (\<forall>js. set js \<subseteq> set (watcher_jobs c) \<and> settled c (run js (run evs world0)) \<longrightarrow>
               (\<exists>t tk. tasks (run evs world0) t = None
                      \<and> tasks (run js (run evs world0)) t = Some tk
                      \<and> task_state tk = r \<and> task_owner tk = c \<and> pending (invoked_at tk))))
   \<and> (at_rest c k r (run evs world0)
       \<and> \<not> (confirmed c k (run evs world0) \<and> triggerExecuteFetch k (run evs world0))
       \<and> consumers (step ev (run evs world0)) c = consumers (run evs world0) c
       \<and> state_value (step ev (run evs world0)) k = Some r
       \<and> confirmed c k (step ev (run evs world0))
       \<and> triggerExecuteFetch k (step ev (run evs world0)) \<longrightarrow>
         settled c (run [ConditionalJob c, FetchJob c, FetchJob c] (step ev (run evs world0)))
         \<and> (\<forall>js. set js \<subseteq> set (watcher_jobs c) \<and> settled c (run js (step ev (run evs world0))) \<longrightarrow>
               (\<exists>t tk. tasks (step ev (run evs world0)) t = None
                      \<and> tasks (run js (step ev (run evs world0))) t = Some tk
                      \<and> task_state tk = r \<and> task_owner tk = c \<and> pending (invoked_at tk))))"
proof -
  let ?W = "run evs world0 :: ('a, 'b) world"
  let ?V = "step ev ?W"
  have 1: "(\<exists>k. keyed_scope (consumers ?V (task_owner tk)) = Some k
            \<and> engine_scope (consumers ?V (task_owner tk))
            \<and> state_value ?W k = Some (task_state tk))
       \<and> \<not> pending (heap ?W (task_state tk)) \<and> \<not> fresh (heap ?W (task_state tk))
       \<and> pending (invoked_at tk)
       \<and> (ev = FetchJob (task_owner tk) \<or> ev = ConditionalJob (task_owner tk)
            \<or> ev = KeyJob (task_owner tk) \<or> (\<exists>key. ev = UseSwr (task_owner tk) key))"
    if n: "tasks ?W t = None" and s: "tasks ?V t = Some tk" for t tk
  proof -
    note b = step_begins[OF counted_reachable n s]
    from b obtain k where k: "keyed_scope (consumers ?V (task_owner tk)) = Some k"
      "engine_scope (consumers ?V (task_owner tk))"
      "state_value ?W k = Some (task_state tk)" "triggerExecuteFetch k ?W"
      by blast
    from k(3,4) have "\<not> pending (heap ?W (task_state tk)) \<and> \<not> fresh (heap ?W (task_state tk))"
      by (simp add: triggerExecuteFetch_def)
    with b k(1,2,3) show ?thesis by blast
  qed
  have 2: "settled c (run [ConditionalJob c, FetchJob c, FetchJob c] ?W)
     \<and> (\<forall>js. set js \<subseteq> set (watcher_jobs c) \<and> settled c (run js ?W) \<longrightarrow>
           (\<exists>t tk. tasks ?W t = None \<and> tasks (run js ?W) t = Some tk
                  \<and> task_state tk = r \<and> task_owner tk = c \<and> pending (invoked_at tk)))"
    if "due c k r ?W"
    by (rule due_begins[OF wf_reachable invoked_pending_reachable that])
  have 3: "settled c (run [ConditionalJob c, FetchJob c, FetchJob c] ?V)
     \<and> (\<forall>js. set js \<subseteq> set (watcher_jobs c) \<and> settled c (run js ?V) \<longrightarrow>
           (\<exists>t tk. tasks ?V t = None \<and> tasks (run js ?V) t = Some tk
                  \<and> task_state tk = r \<and> task_owner tk = c \<and> pending (invoked_at tk)))"
    if h: "at_rest c k r ?W \<and> \<not> (confirmed c k ?W \<and> triggerExecuteFetch k ?W)
       \<and> consumers ?V c = consumers ?W c \<and> state_value ?V k = Some r
       \<and> confirmed c k ?V \<and> triggerExecuteFetch k ?V"
  proof -
    have d: "due c k r ?V"
      by (rule due_at_rest[of c k r ?W]) (use h in blast)+
    show ?thesis
      by (rule due_begins[OF wf_step[OF wf_reachable]
            invoked_pending_step[OF invoked_pending_reachable] d])
  qed
  show ?thesis using 1 2 3 by blast
qed

theorem fetch_begun_exactly_on_trigger_witness:
  "tasks (run example_confirmed world0) 0 = None
   \<and> tasks (step (ConditionalJob 0) (run example_confirmed world0)) 0 =
       Some \<lparr>task_state = 0, task_owner = 0, task_promise = Unsettled,
             task_hooks = [ResolveAborted], task_phase = Awaiting,
             invoked_at = \<lparr>data = None, error = None, pending = True, fresh = False, owners = 1\<rparr>\<rparr>
   \<and> \<not> pending (heap (run example_confirmed world0) 0)
   \<and> \<not> fresh (heap (run example_confirmed world0) 0)
   \<and> due 0 example_key 0 (run example_confirmed world0)
   \<and> set [ConditionalJob 0, FetchJob 0] \<subseteq> set (watcher_jobs 0 :: (string, string) event list)
   \<and> settled 0 (run [ConditionalJob 0, FetchJob 0] (run example_confirmed world0))
   \<and> (\<exists>t tk. tasks (run example_confirmed world0) t = None
          \<and> tasks (run [ConditionalJob 0, FetchJob 0] (run example_confirmed world0)) t = Some tk
          \<and> task_state tk = 0 \<and> task_owner tk = 0 \<and> pending (invoked_at tk))
   \<and> at_rest 0 example_key 0 (run example_fetched world0)
   \<and> \<not> (confirmed 0 example_key (run example_fetched world0)
          \<and> triggerExecuteFetch example_key (run example_fetched world0))
   \<and> consumers (step (CallMarkStale 0) (run example_fetched world0)) 0 =
       consumers (run example_fetched world0) 0
   \<and> state_value (step (CallMarkStale 0) (run example_fetched world0)) example_key = Some 0
   \<and> confirmed 0 example_key (step (CallMarkStale 0) (run example_fetched world0))
   \<and> triggerExecuteFetch example_key (step (CallMarkStale 0) (run example_fetched world0))
   \<and> settled 0 (run [ConditionalJob 0, FetchJob 0, FetchJob 0]
                   (step (CallMarkStale 0) (run example_fetched world0)))
   \<and> set [FetchJob 0, FetchJob 0] \<subseteq> set (watcher_jobs 0 :: (string, string) event list)
   \<and> settled 0 (run [FetchJob 0, FetchJob 0]
                   (step (CallMarkStale 0) (run example_fetched world0)))
   \<and> (\<exists>t tk. tasks (step (CallMarkStale 0) (run example_fetched world0)) t = None
          \<and> tasks (run [FetchJob 0, FetchJob 0]
                     (step (CallMarkStale 0) (run example_fetched world0))) t = Some tk
          \<and> task_state tk = 0 \<and> task_owner tk = 0 \<and> pending (invoked_at tk))
   \<and> tasks (run [FetchJob 0, FetchJob 0]
               (step (CallMarkStale 0) (run example_fetched world0))) 1 =
       Some \<lparr>task_state = 0, task_owner = 0, task_promise = Unsettled,
             task_hooks = [ResolveAborted], task_phase = Awaiting,
             invoked_at = \<lparr>data = Some ''v1'', error = None, pending = True, fresh = False,
                           owners = 1\<rparr>\<rparr>
   \<and> at_rest 0 example_key 0 (run example_shared world0)
   \<and> \<not> (confirmed 0 example_key (run example_shared world0)
          \<and> triggerExecuteFetch example_key (run example_shared world0))
   \<and> consumers (step (Unmount 1) (run example_shared world0)) 0 =
       consumers (run example_shared world0) 0
   \<and> state_value (step (Unmount 1) (run example_shared world0)) example_key = Some 0
   \<and> confirmed 0 example_key (step (Unmount 1) (run example_shared world0))
   \<and> triggerExecuteFetch example_key (step (Unmount 1) (run example_shared world0))
   \<and> set [ConditionalJob 0, FetchJob 0] \<subseteq> set (watcher_jobs 0 :: (string, string) event list)
   \<and> settled 0 (run [ConditionalJob 0, FetchJob 0] (step (Unmount 1) (run example_shared world0)))
   \<and> (\<exists>t tk. tasks (step (Unmount 1) (run example_shared world0)) t = None
          \<and> tasks (run [ConditionalJob 0, FetchJob 0]
                     (step (Unmount 1) (run example_shared world0))) t = Some tk
          \<and> task_state tk = 0 \<and> task_owner tk = 0 \<and> pending (invoked_at tk))"
proof -
  let ?W1 = "run example_confirmed world0 :: (string, string) world"
  let ?tk = "\<lparr>task_state = 0, task_owner = 0, task_promise = Unsettled,
             task_hooks = [ResolveAborted], task_phase = Awaiting,
             invoked_at = \<lparr>data = None, error = None, pending = True, fresh = False, owners = 1\<rparr>\<rparr>
             :: (string, string) task"
  let ?W2 = "run example_fetched world0 :: (string, string) world"
  let ?V2 = "step (CallMarkStale 0) ?W2"
  let ?W3 = "run example_shared world0 :: (string, string) world"
  let ?V3 = "step (Unmount 1) ?W3"
  let ?js2 = "[FetchJob 0, FetchJob 0] :: (string, string) event list"
  let ?js3 = "[ConditionalJob 0, FetchJob 0] :: (string, string) event list"
  have a1: "tasks ?W1 0 = None" by (simp add: model_defs)
  have a2: "tasks (step (ConditionalJob 0) ?W1) 0 = Some ?tk" by (simp add: model_defs)
  from fetch_begun_exactly_on_trigger[of example_confirmed "ConditionalJob 0"] a1 a2
  have "\<not> pending (heap ?W1 (task_state ?tk)) \<and> \<not> fresh (heap ?W1 (task_state ?tk))"
    by blast
  then have p1: "\<not> pending (heap ?W1 0)" and p2: "\<not> fresh (heap ?W1 0)"
    by simp_all
  have d1: "due 0 example_key 0 ?W1" by (simp add: model_defs due_def)
  have d2: "settled 0 (run ?js3 ?W1)" by (simp add: model_defs settled_def)
  have d3: "set ?js3 \<subseteq> set (watcher_jobs 0)" by (simp add: watcher_jobs_def)
  from fetch_begun_exactly_on_trigger[of example_confirmed _ 0 example_key 0] d1 d2 d3
  have d4: "\<exists>t tk. tasks ?W1 t = None \<and> tasks (run ?js3 ?W1) t = Some tk
          \<and> task_state tk = 0 \<and> task_owner tk = 0 \<and> pending (invoked_at tk)" by blast
  have b1: "at_rest 0 example_key 0 ?W2" by (simp add: model_defs at_rest_def settled_def)
  have b2: "\<not> (confirmed 0 example_key ?W2 \<and> triggerExecuteFetch example_key ?W2)"
    by (simp add: model_defs)
  have b3: "consumers ?V2 0 = consumers ?W2 0" by (simp add: model_defs)
  have b4: "state_value ?V2 example_key = Some 0" by (simp add: model_defs)
  have b5: "confirmed 0 example_key ?V2" by (simp add: model_defs)
  have b6: "triggerExecuteFetch example_key ?V2" by (simp add: model_defs)
  have b7: "set ?js2 \<subseteq> set (watcher_jobs 0)" by (simp add: watcher_jobs_def)
  have b8: "settled 0 (run ?js2 ?V2)" by (simp add: model_defs settled_def)
  have b9: "tasks (run ?js2 ?V2) 1 =
       Some \<lparr>task_state = 0, task_owner = 0, task_promise = Unsettled,
             task_hooks = [ResolveAborted], task_phase = Awaiting,
             invoked_at = \<lparr>data = Some ''v1'', error = None, pending = True, fresh = False,
                           owners = 1\<rparr>\<rparr>"
    by (simp add: model_defs)
  note th2 = fetch_begun_exactly_on_trigger[of example_fetched "CallMarkStale 0"
      0 example_key 0]
  from th2 b1 b2 b3 b4 b5 b6
  have 2: "settled 0 (run [ConditionalJob 0, FetchJob 0, FetchJob 0] ?V2)" by blast
  from th2 b1 b2 b3 b4 b5 b6 b7 b8
  have 3: "\<exists>t tk. tasks ?V2 t = None \<and> tasks (run ?js2 ?V2) t = Some tk
          \<and> task_state tk = 0 \<and> task_owner tk = 0 \<and> pending (invoked_at tk)" by blast
  have c1: "at_rest 0 example_key 0 ?W3" by (simp add: model_defs at_rest_def settled_def)
  have c2: "\<not> (confirmed 0 example_key ?W3 \<and> triggerExecuteFetch example_key ?W3)"
    by (simp add: model_defs)
  have c3: "consumers ?V3 0 = consumers ?W3 0" by (simp add: model_defs)
  have c4: "state_value ?V3 example_key = Some 0" by (simp add: model_defs)
  have c5: "confirmed 0 example_key ?V3" by (simp add: model_defs)
  have c6: "triggerExecuteFetch example_key ?V3" by (simp add: model_defs)
  have c7: "set ?js3 \<subseteq> set (watcher_jobs 0)" by (simp add: watcher_jobs_def)
  have c8: "settled 0 (run ?js3 ?V3)" by (simp add: model_defs settled_def)
  note th3 = fetch_begun_exactly_on_trigger[of example_shared "Unmount 1" 0 example_key 0]
  from th3 c1 c2 c3 c4 c5 c6 c7 c8
  have 4: "\<exists>t tk. tasks ?V3 t = None \<and> tasks (run ?js3 ?V3) t = Some tk
          \<and> task_state tk = 0 \<and> task_owner tk = 0 \<and> pending (invoked_at tk)" by blast
  show ?thesis
    by (intro conjI; fact)
qed

section \<open>After a cancellation\<close>


section \<open>The count of owners\<close>

text \<open>
  C4 does not hold of the code. A consumer is bound to a key and committed, the entry has
  \<^verbatim>\<open>owners\<close> 1. A key change alone decrements \<^verbatim>\<open>owners\<close> of the entry to 0. When \<^verbatim>\<open>reset()\<close> is
  called in the same turn as the key change, the disposal of the old scope finds the
  \<^verbatim>\<open>committed\<close> flag set (for the old object, the only one the ownership watcher has seen)
  and decrements the object that \<^verbatim>\<open>reset()\<close> has stored, which this consumer never
  incremented: its \<^verbatim>\<open>owners\<close> is -1 and that of the old object stays 1. A consumer that then
  binds the key, alone, finds \<^verbatim>\<open>owners\<close> 0 after its increment and is not confirmed.
\<close>

theorem owners_underflow_on_reset_and_key_change:
  "state_value (run example_in_flight world0) example_key = Some 0
   \<and> owners (heap (run example_in_flight world0) 0) = 1
   \<and> committed (consumers (run example_in_flight world0) 0)
   \<and> owners (heap (run example_key_changed world0) 0) = 0
   \<and> state_value (run example_reset_pending world0) example_key = Some 1
   \<and> heap (run example_reset_pending world0) 1 =
       \<lparr>data = None, error = None, pending = False, fresh = False, owners = 0\<rparr>
   \<and> state_old (consumers (run example_reset_pending world0) 0) = Some 0
   \<and> committed (consumers (run example_reset_pending world0) 0)
   \<and> example_underflow = example_reset_pending @ [KeyJob 0]
   \<and> state_value (run example_underflow world0) example_key = Some 1
   \<and> heap (run example_underflow world0) 1 =
       \<lparr>data = None, error = None, pending = False, fresh = False, owners = - 1\<rparr>
   \<and> owners (heap (run example_underflow world0) 0) = 1
   \<and> owners (heap (run (example_underflow @ [UseSwr 1 (Some example_key)]) world0) 1) = 0
   \<and> committed (consumers (run (example_underflow @ [UseSwr 1 (Some example_key)]) world0) 1)
   \<and> \<not> confirmed 1 example_key (run (example_underflow @ [UseSwr 1 (Some example_key)]) world0)
   \<and> \<not> engine_scope (consumers (run (example_underflow @ [UseSwr 1 (Some example_key)]) world0) 1)"
  by (simp add: model_defs)

end
